theory Spec2Isabelle
  imports Complex_Main "HOL-Library.Sublist"
begin

section \<open>Data model\<close>

text \<open>
  The bidding logic of \<^verbatim>\<open>main.js\<close> (lines 123 to 308): \<^verbatim>\<open>ensureLoggedIn\<close>,
  \<^verbatim>\<open>placeBid\<close>, \<^verbatim>\<open>handleUserBids\<close> and the IPC handlers
  \<^verbatim>\<open>fetch-auctions-data\<close>, \<^verbatim>\<open>stop-update\<close>, \<^verbatim>\<open>save-auctions\<close> and
  \<^verbatim>\<open>save-credentials\<close>, with \<^verbatim>\<open>loadData\<close> and \<^verbatim>\<open>saveData\<close>.

  An auction record as the code reads it. \<open>timeToBid\<close> is \<open>None\<close> for an empty field
  (\<^verbatim>\<open>!auction.timeToBid\<close>) and \<open>Some t\<close> for a field that \<^verbatim>\<open>new Date\<close> reads as the
  instant \<open>t\<close>, in milliseconds; the data model is a timestamp or empty, and a field that is
  neither is not modelled. \<open>bidProxy\<close> is what \<^verbatim>\<open>parseFloat\<close> reads from the field:
  \<open>None\<close> when it reads \<^verbatim>\<open>NaN\<close>. \<open>bidPlaced\<close> is \<open>None\<close> for the empty string and
  \<open>Some t\<close> for the locale string of the instant \<open>t\<close>.

  \<^verbatim>\<open>close-all-windows\<close> is not modelled, nor are the two calls that set the default
  timeouts of a page, which talk to no browser.
\<close>

type_synonym ref = nat
type_synonym handle = nat

record credential =
  cred_id :: int
  username :: string
  password :: string

record auction =
  auction_id :: int
  timeToBid :: "int option"
  idAuction :: string
  bidProxy :: "rat option"
  address :: string
  account :: string
  bidPlaced :: "int option"

text \<open>An entry of \<^verbatim>\<open>browserMap\<close> and an entry of \<^verbatim>\<open>bidTimeouts\<close>.\<close>

record session =
  browser :: handle
  page :: handle
  isLoggedIn :: bool

record pending =
  timeoutId :: nat
  auctionId :: int
  pending_username :: string

text \<open>
  A timer of the runtime, as \<^verbatim>\<open>setTimeout\<close> registers it in \<^verbatim>\<open>handleUserBids\<close>: the
  instant of the call, the delay passed, and the auction object and page that the callback
  closes over.
\<close>

record timer =
  armed_at :: int
  delay :: int
  callback_auction :: ref
  callback_page :: handle

section \<open>Effects\<close>

text \<open>
  Every interaction with the browser or the file system is an \<open>action\<close>. The selector
  of the bid input is determined by \<open>idAuction\<close> and carries it.
\<close>

datatype url = LoginUrl | AuctionUrl string

datatype selector =
    UsernameInput | PasswordInput | SubmitButton
  | PlaceBidInput string | FirstPlaceBid | SecondPlaceBid

datatype typed = Txt string | Amount rat

datatype action =
    Launch
  | NewPage handle
  | Goto handle url
  | WaitForSelector handle selector
  | TypeText handle selector typed
  | Click handle selector nat
  | ClickAndWaitForNavigation handle selector
  | ReadFile
  | WriteFile

text \<open>The lines written by \<^verbatim>\<open>console.log\<close> and \<^verbatim>\<open>console.error\<close>.\<close>

datatype message =
    LoadDataMsg | SaveDataMsg
  | AlreadyLoggedIn string | LoggingIn string | LoginSuccessful string
  | PlaceBidMsg ref | TypingMsg rat string | ClickedFirst | ClickedSecond
  | SkippingUser string | NoTimeSkip ref | SchedulingMsg ref int
  | ClearingOldTimers | NoCredsOrAuctions
  | SaveAuctionsMsg | SaveCredentialsMsg

datatype failure = LoadDataError | SaveDataError | LoginError string | PlaceBidError

datatype event = Did action bool | Info message | Error failure

text \<open>A rejection that leaves an \<^verbatim>\<open>async\<close> function.\<close>

datatype error = TypeError | LaunchError

text \<open>
  The state: the two module variables \<^verbatim>\<open>browserMap\<close> and \<^verbatim>\<open>bidTimeouts\<close>, the
  live timers of the runtime, the auction objects that a scheduling pass has loaded (the
  callbacks and the pass share them by reference), the file \<^verbatim>\<open>credentials.json\<close>, the
  clock, and the trace of everything done so far. A missing file reads as the empty store.

  An \<^verbatim>\<open>async\<close> function is run to completion as one step: the tasks that
  \<^verbatim>\<open>fetch-auctions-data\<close> starts for the accounts run one after another, in the
  order of the credentials, and a timer fires between two handlers, never inside one.
\<close>

record state =
  browserMap :: "string \<Rightarrow> session option"
  bidTimeouts :: "pending list"
  timers :: "(nat \<times> timer) list"
  nextTimeout :: nat
  nextHandle :: handle
  objs :: "ref \<Rightarrow> auction"
  nextRef :: ref
  store :: "credential list \<times> auction list"
  clock :: int
  tick :: nat
  trace :: "event list"

text \<open>
  The world outside is an oracle: the \<open>n\<close>-th action succeeds or throws, and takes some
  milliseconds. \<open>perform\<close> asks the oracle, lets the time pass and records the action with
  its outcome.
\<close>

type_synonym env = "nat \<Rightarrow> bool \<times> nat"

definition emit :: "event \<Rightarrow> state \<Rightarrow> state" where
  "emit e s = s\<lparr>trace := trace s @ [e]\<rparr>"

definition perform :: "env \<Rightarrow> action \<Rightarrow> state \<Rightarrow> bool \<times> state" where
  "perform env a s =
     (fst (env (tick s)),
      s\<lparr>clock := clock s + int (snd (env (tick s))),
        tick := Suc (tick s),
        trace := trace s @ [Did a (fst (env (tick s)))]\<rparr>)"

text \<open>
  The body of a \<^verbatim>\<open>try\<close> block: awaited actions, log lines and the settle delay, run
  in order up to the first action that throws.
\<close>

datatype stmt = Await action | Say message | Sleep nat

fun run_try :: "env \<Rightarrow> stmt list \<Rightarrow> state \<Rightarrow> bool \<times> state" where
  "run_try env [] s = (True, s)"
| "run_try env (Await a # rest) s =
     (if fst (perform env a s) then run_try env rest (snd (perform env a s))
      else (False, snd (perform env a s)))"
| "run_try env (Say m # rest) s = run_try env rest (emit (Info m) s)"
| "run_try env (Sleep n # rest) s = run_try env rest (s\<lparr>clock := clock s + int n\<rparr>)"

section \<open>The record store\<close>

text \<open>
  \<^verbatim>\<open>loadData\<close> and \<^verbatim>\<open>saveData\<close> catch what the file system throws: a failed read gives
  the empty store, a failed write leaves the file as it was and returns \<^verbatim>\<open>false\<close>.
\<close>

definition loadData :: "env \<Rightarrow> state \<Rightarrow> (credential list \<times> auction list) \<times> state" where
  "loadData env s =
     (let r = perform env ReadFile (emit (Info LoadDataMsg) s) in
      if fst r then (store (snd r), snd r)
      else (([], []), emit (Error LoadDataError) (snd r)))"

definition saveData :: "env \<Rightarrow> credential list \<times> auction list \<Rightarrow> state \<Rightarrow> bool \<times> state" where
  "saveData env d s =
     (let r = perform env WriteFile (emit (Info SaveDataMsg) s) in
      if fst r then (True, (snd r)\<lparr>store := d\<rparr>)
      else (False, emit (Error SaveDataError) (snd r)))"

section \<open>Login\<close>

text \<open>
  \<^verbatim>\<open>ensureLoggedIn\<close> reads \<^verbatim>\<open>browserMap[username].isLoggedIn\<close> before its
  \<^verbatim>\<open>try\<close> block, which throws when the account has no session. The click on the submit
  button and the wait for the navigation are one action.
\<close>

definition login_steps :: "string \<Rightarrow> string \<Rightarrow> handle \<Rightarrow> stmt list" where
  "login_steps u p pg =
     [Say (LoggingIn u),
      Await (Goto pg LoginUrl),
      Await (WaitForSelector pg UsernameInput),
      Await (TypeText pg UsernameInput (Txt u)),
      Await (WaitForSelector pg PasswordInput),
      Await (TypeText pg PasswordInput (Txt p)),
      Await (ClickAndWaitForNavigation pg SubmitButton),
      Say (LoginSuccessful u)]"

definition ensureLoggedIn ::
  "env \<Rightarrow> string \<Rightarrow> string \<Rightarrow> handle \<Rightarrow> state \<Rightarrow> error option \<times> state" where
  "ensureLoggedIn env u p pg s =
     (case browserMap s u of
        None \<Rightarrow> (Some TypeError, s)
      | Some sess \<Rightarrow>
          if isLoggedIn sess then (None, emit (Info (AlreadyLoggedIn u)) s)
          else
            (let r = run_try env (login_steps u p pg) s in
             if fst r then
               (case browserMap (snd r) u of
                  None \<Rightarrow> (None, emit (Error (LoginError u)) (snd r))
                | Some cur \<Rightarrow>
                    (None, (snd r)\<lparr>browserMap :=
                              (browserMap (snd r))(u \<mapsto> cur\<lparr>isLoggedIn := True\<rparr>)\<rparr>))
             else (None, emit (Error (LoginError u)) (snd r))))"

section \<open>Placing a bid\<close>

text \<open>
  \<^verbatim>\<open>placeBid\<close> logs its call, runs the eight awaited steps with the settle delay of three
  seconds, and then marks the bid: it reloads the store, stamps the auction object, and
  writes the store back when it finds a record of the same id.
\<close>

definition newBid :: "auction \<Rightarrow> rat" where
  "newBid a = (case bidProxy a of None \<Rightarrow> 0 | Some v \<Rightarrow> v)"

definition bid_steps :: "auction \<Rightarrow> handle \<Rightarrow> stmt list" where
  "bid_steps a pg =
     [Await (Goto pg (AuctionUrl (idAuction a))),
      Say (TypingMsg (newBid a) (idAuction a)),
      Await (WaitForSelector pg (PlaceBidInput (idAuction a))),
      Await (Click pg (PlaceBidInput (idAuction a)) 3),
      Await (TypeText pg (PlaceBidInput (idAuction a)) (Amount (newBid a))),
      Await (WaitForSelector pg FirstPlaceBid),
      Await (Click pg FirstPlaceBid 1),
      Say ClickedFirst,
      Sleep 3000,
      Await (WaitForSelector pg SecondPlaceBid),
      Await (Click pg SecondPlaceBid 1),
      Say ClickedSecond]"

fun findIndex :: "('a \<Rightarrow> bool) \<Rightarrow> 'a list \<Rightarrow> nat option" where
  "findIndex P [] = None"
| "findIndex P (x # xs) =
     (if P x then Some 0 else map_option Suc (findIndex P xs))"

definition mark_bidPlaced :: "env \<Rightarrow> ref \<Rightarrow> state \<Rightarrow> state" where
  "mark_bidPlaced env r s =
     (let ld = loadData env s;
          credentials = fst (fst ld);
          auctions = snd (fst ld);
          s1 = snd ld;
          nowStr = clock s1;
          s2 = s1\<lparr>objs := (objs s1)(r := (objs s1 r)\<lparr>bidPlaced := Some nowStr\<rparr>)\<rparr>
      in case findIndex (\<lambda>a. auction_id a = auction_id (objs s2 r)) auctions of
           None \<Rightarrow> s2
         | Some idx \<Rightarrow>
             snd (saveData env
                    (credentials,
                     auctions[idx := (auctions ! idx)\<lparr>bidPlaced := Some nowStr\<rparr>])
                    s2))"

definition placeBid :: "env \<Rightarrow> ref \<Rightarrow> handle \<Rightarrow> state \<Rightarrow> state" where
  "placeBid env r pg s =
     (let t = run_try env (bid_steps (objs s r) pg) (emit (Info (PlaceBidMsg r)) s) in
      if fst t then mark_bidPlaced env r (snd t)
      else emit (Error PlaceBidError) (snd t))"

section \<open>Scheduling the bids of one account\<close>

text \<open>
  \<^verbatim>\<open>setTimeout\<close> registers a timer under a new id; \<^verbatim>\<open>handleUserBids\<close> pushes the id
  on \<^verbatim>\<open>bidTimeouts\<close> with the id of the auction and the username.
\<close>

definition setTimeout_placeBid :: "ref \<Rightarrow> handle \<Rightarrow> int \<Rightarrow> state \<Rightarrow> nat \<times> state" where
  "setTimeout_placeBid r pg d s =
     (nextTimeout s,
      s\<lparr>timers := timers s @
           [(nextTimeout s,
             \<lparr>armed_at = clock s, delay = d, callback_auction = r, callback_page = pg\<rparr>)],
        nextTimeout := Suc (nextTimeout s)\<rparr>)"

definition schedule_bid :: "string \<Rightarrow> ref \<Rightarrow> handle \<Rightarrow> int \<Rightarrow> state \<Rightarrow> state" where
  "schedule_bid u r pg d s =
     (let t = setTimeout_placeBid r pg d (emit (Info (SchedulingMsg r d)) s) in
      (snd t)\<lparr>bidTimeouts := bidTimeouts (snd t) @
                 [\<lparr>timeoutId = fst t, auctionId = auction_id (objs s r),
                   pending_username = u\<rparr>]\<rparr>)"

text \<open>The body of the loop over \<^verbatim>\<open>auctionsToBid\<close>, and the loop.\<close>

definition bid_iteration :: "env \<Rightarrow> string \<Rightarrow> handle \<Rightarrow> ref \<Rightarrow> state \<Rightarrow> state" where
  "bid_iteration env u pg r s =
     (case timeToBid (objs s r) of
        None \<Rightarrow> emit (Info (NoTimeSkip r)) s
      | Some targetTime \<Rightarrow>
          (let now = clock s; diff = targetTime - now in
           if diff \<le> 0 then placeBid env r pg s
           else schedule_bid u r pg diff s))"

definition bid_loop :: "env \<Rightarrow> string \<Rightarrow> handle \<Rightarrow> ref list \<Rightarrow> state \<Rightarrow> state" where
  "bid_loop env u pg auctionsToBid s = fold (bid_iteration env u pg) auctionsToBid s"

definition positive_bid :: "auction \<Rightarrow> bool" where
  "positive_bid a = (case bidProxy a of None \<Rightarrow> False | Some v \<Rightarrow> 0 < v)"

definition launch_session :: "env \<Rightarrow> string \<Rightarrow> state \<Rightarrow> error option \<times> state" where
  "launch_session env u s =
     (let l = perform env Launch s in
      if \<not> fst l then (Some LaunchError, snd l)
      else
        (let br = nextHandle (snd l);
             n = perform env (NewPage br) ((snd l)\<lparr>nextHandle := Suc br\<rparr>) in
         if \<not> fst n then (Some LaunchError, snd n)
         else
           (let pg = nextHandle (snd n) in
            (None,
             (snd n)\<lparr>nextHandle := Suc pg,
                      browserMap := (browserMap (snd n))
                        (u \<mapsto> \<lparr>browser = br, page = pg, isLoggedIn = False\<rparr>)\<rparr>))))"

text \<open>
  Lines 208 to 212 of \<^verbatim>\<open>handleUserBids\<close>: the session of the account, launched when
  \<^verbatim>\<open>browserMap\<close> has none.
\<close>

definition acquire :: "env \<Rightarrow> string \<Rightarrow> state \<Rightarrow> error option \<times> state" where
  "acquire env u s = (if browserMap s u = None then launch_session env u s else (None, s))"

definition handleUserBids ::
  "env \<Rightarrow> credential \<Rightarrow> ref list \<Rightarrow> state \<Rightarrow> error option \<times> state" where
  "handleUserBids env cred userAuctions s =
     (let auctionsToBid = filter (\<lambda>r. positive_bid (objs s r)) userAuctions in
      if auctionsToBid = [] then (None, emit (Info (SkippingUser (username cred))) s)
      else
        (let a = acquire env (username cred) s in
         case fst a of
           Some e \<Rightarrow> (Some e, snd a)
         | None \<Rightarrow>
             (case browserMap (snd a) (username cred) of
                None \<Rightarrow> (Some TypeError, snd a)
              | Some sess \<Rightarrow>
                  (let l = ensureLoggedIn env (username cred) (password cred)
                             (page sess) (snd a) in
                   case fst l of
                     Some e \<Rightarrow> (Some e, snd l)
                   | None \<Rightarrow>
                       (None, bid_loop env (username cred) (page sess)
                                auctionsToBid (snd l))))))"

section \<open>The handlers\<close>

text \<open>
  \<^verbatim>\<open>fetch-auctions-data\<close> clears the timers of \<^verbatim>\<open>bidTimeouts\<close>, loads the store, puts the
  loaded auctions on the heap, groups them by account and starts one task for each
  credential that has auctions. \<^verbatim>\<open>Promise.all\<close> rejects when a task rejects; the other
  tasks run on.
\<close>

definition clearTimeout :: "nat \<Rightarrow> state \<Rightarrow> state" where
  "clearTimeout i s = s\<lparr>timers := filter (\<lambda>t. fst t \<noteq> i) (timers s)\<rparr>"

definition clear_bidTimeouts :: "state \<Rightarrow> state" where
  "clear_bidTimeouts s =
     (fold (\<lambda>t. clearTimeout (timeoutId t)) (bidTimeouts s) s)\<lparr>bidTimeouts := []\<rparr>"

fun alloc :: "auction list \<Rightarrow> state \<Rightarrow> ref list \<times> state" where
  "alloc [] s = ([], s)"
| "alloc (a # as) s =
     (let r = nextRef s;
          rest = alloc as (s\<lparr>objs := (objs s)(r := a), nextRef := Suc r\<rparr>)
      in (r # fst rest, snd rest))"

fun group_by_account ::
  "(ref \<Rightarrow> auction) \<Rightarrow> ref list \<Rightarrow> (string \<Rightarrow> ref list option) \<Rightarrow> string \<Rightarrow> ref list option"
where
  "group_by_account h [] m = m"
| "group_by_account h (r # rs) m =
     (if account (h r) = [] then group_by_account h rs m
      else group_by_account h rs
             (m(account (h r) \<mapsto>
                  (case m (account (h r)) of None \<Rightarrow> [r] | Some l \<Rightarrow> l @ [r]))))"

fun run_tasks ::
  "env \<Rightarrow> credential list \<Rightarrow> (string \<Rightarrow> ref list option) \<Rightarrow> state \<Rightarrow> error option \<times> state"
where
  "run_tasks env [] m s = (None, s)"
| "run_tasks env (cred # creds) m s =
     (case m (username cred) of
        None \<Rightarrow> run_tasks env creds m s
      | Some userAuctions \<Rightarrow>
          if userAuctions = [] then run_tasks env creds m s
          else
            (let t = handleUserBids env cred userAuctions s;
                 rest = run_tasks env creds m (snd t)
             in (case fst t of Some e \<Rightarrow> Some e | None \<Rightarrow> fst rest, snd rest)))"

definition fetch_auctions_data :: "env \<Rightarrow> state \<Rightarrow> (error + auction list) \<times> state" where
  "fetch_auctions_data env s =
     (let ld = loadData env (clear_bidTimeouts (emit (Info ClearingOldTimers) s));
          credentials = fst (fst ld);
          auctions = snd (fst ld)
      in if credentials = [] \<or> auctions = []
         then (Inr auctions, emit (Info NoCredsOrAuctions) (snd ld))
         else
           (let al = alloc auctions (snd ld);
                t = run_tasks env credentials
                      (group_by_account (objs (snd al)) (fst al) Map.empty) (snd al)
            in case fst t of
                 Some e \<Rightarrow> (Inl e, snd t)
               | None \<Rightarrow> (Inr (map (objs (snd t)) (fst al)), snd t)))"

definition stop_update :: "state \<Rightarrow> string \<times> state" where
  "stop_update s =
     (''All scheduled bids canceled. Browsers remain open.'', clear_bidTimeouts s)"

definition save_auctions :: "env \<Rightarrow> auction list \<Rightarrow> state \<Rightarrow> bool \<times> state" where
  "save_auctions env updatedAuctions s =
     (let ld = loadData env (emit (Info SaveAuctionsMsg) s) in
      saveData env (fst (fst ld), updatedAuctions) (snd ld))"

definition save_credentials :: "env \<Rightarrow> credential list \<Rightarrow> state \<Rightarrow> bool \<times> state" where
  "save_credentials env updatedCreds s =
     (let ld = loadData env (emit (Info SaveCredentialsMsg) s) in
      saveData env (updatedCreds, snd (fst ld)) (snd ld))"

section \<open>The runtime\<close>

text \<open>
  The timers of the runtime: a delay outside \<open>1 .. 2\<^sup>3\<^sup>1 - 1\<close> counts as one
  millisecond; a live timer fires once, when due, and runs its callback.
\<close>

definition effective_delay :: "int \<Rightarrow> int" where
  "effective_delay d = (if 1 \<le> d \<and> d \<le> 2147483647 then d else 1)"

definition due :: "timer \<Rightarrow> int" where
  "due t = armed_at t + effective_delay (delay t)"

definition fire_timer :: "env \<Rightarrow> nat \<Rightarrow> state \<Rightarrow> state" where
  "fire_timer env i s =
     (case map_of (timers s) i of
        None \<Rightarrow> s
      | Some t \<Rightarrow>
          if clock s < due t then s
          else placeBid env (callback_auction t) (callback_page t)
                 (s\<lparr>timers := filter (\<lambda>x. fst x \<noteq> i) (timers s)\<rparr>))"

definition advance :: "nat \<Rightarrow> state \<Rightarrow> state" where
  "advance d s = s\<lparr>clock := clock s + int d\<rparr>"

text \<open>
  What can happen to the scheduler, one after another: the three handlers of the bidding
  logic, the two handlers with which the user edits the store, a timer firing, time passing.
\<close>

datatype op =
    FetchAuctionsData | StopUpdate | SaveAuctions "auction list"
  | SaveCredentials "credential list" | Fire nat | Advance nat

fun exec :: "env \<Rightarrow> op \<Rightarrow> state \<Rightarrow> state" where
  "exec env FetchAuctionsData s = snd (fetch_auctions_data env s)"
| "exec env StopUpdate s = snd (stop_update s)"
| "exec env (SaveAuctions as) s = snd (save_auctions env as s)"
| "exec env (SaveCredentials cs) s = snd (save_credentials env cs s)"
| "exec env (Fire i) s = fire_timer env i s"
| "exec env (Advance d) s = advance d s"


definition run :: "env \<Rightarrow> op list \<Rightarrow> state \<Rightarrow> state" where
  "run env ops s = fold (exec env) ops s"

text \<open>The state when the application starts, with the store as found on disk.\<close>

definition no_auction :: auction where
  "no_auction =
     \<lparr>auction_id = 0, timeToBid = None, idAuction = [], bidProxy = None, address = [],
      account = [], bidPlaced = None\<rparr>"

definition init :: "credential list \<times> auction list \<Rightarrow> state" where
  "init d =
     \<lparr>browserMap = Map.empty, bidTimeouts = [], timers = [], nextTimeout = 0,
      nextHandle = 0, objs = (\<lambda>r. no_auction), nextRef = 0, store = d, clock = 0,
      tick = 0, trace = []\<rparr>"

section \<open>Observations on the trace\<close>

text \<open>
  Every call of \<^verbatim>\<open>placeBid\<close> starts with one log line: the bid attempts of a trace
  are these lines, in order. \<open>news s s'\<close> is what a run from \<open>s\<close> to \<open>s'\<close> has added.
\<close>

fun attempt_of :: "event \<Rightarrow> ref list" where
  "attempt_of (Info (PlaceBidMsg r)) = [r]"
| "attempt_of e = []"

definition attempts :: "event list \<Rightarrow> ref list" where
  "attempts tr = concat (map attempt_of tr)"

fun action_of :: "event \<Rightarrow> action list" where
  "action_of (Did a ok) = [a]"
| "action_of e = []"

definition actions :: "event list \<Rightarrow> action list" where
  "actions tr = concat (map action_of tr)"

text \<open>The login attempts of a trace: the accounts for which a login has been started.\<close>

fun login_of :: "event \<Rightarrow> string list" where
  "login_of (Info (LoggingIn u)) = [u]"
| "login_of e = []"

definition logins :: "event list \<Rightarrow> string list" where
  "logins tr = concat (map login_of tr)"

definition news :: "state \<Rightarrow> state \<Rightarrow> event list" where
  "news s s' = drop (length (trace s)) (trace s')"

fun awaits :: "stmt list \<Rightarrow> action list" where
  "awaits [] = []"
| "awaits (Await a # rest) = a # awaits rest"
| "awaits (Say m # rest) = awaits rest"
| "awaits (Sleep n # rest) = awaits rest"

definition new_timers :: "state \<Rightarrow> state \<Rightarrow> (nat \<times> timer) list" where
  "new_timers s s' = drop (length (timers s)) (timers s')"

text \<open>An auction object apart from its outcome field, which is all that a bid changes.\<close>

definition unstamped :: "auction \<Rightarrow> auction" where
  "unstamped a = a\<lparr>bidPlaced := None\<rparr>"

text \<open>
  A timer armed by the loop of an account from state \<open>s\<close> on: its callback uses the page of
  the account, and its delay is the deadline of its auction minus the clock at its arming.
  \<open>entry_of\<close> is the entry that \<^verbatim>\<open>bidTimeouts\<close> gets with it.
\<close>

definition exact_timer :: "state \<Rightarrow> string \<Rightarrow> handle \<Rightarrow> nat \<times> timer \<Rightarrow> bool" where
  "exact_timer s u pg t \<longleftrightarrow>
     callback_page (snd t) = pg \<and> clock s \<le> armed_at (snd t) \<and> nextTimeout s \<le> fst t
     \<and> (case timeToBid (objs s (callback_auction (snd t))) of
          None \<Rightarrow> False
        | Some d \<Rightarrow> delay (snd t) = d - armed_at (snd t) \<and> 0 < delay (snd t))"

definition entry_of :: "state \<Rightarrow> string \<Rightarrow> nat \<times> timer \<Rightarrow> pending" where
  "entry_of s u t =
     \<lparr>timeoutId = fst t, auctionId = auction_id (objs s (callback_auction (snd t))),
      pending_username = u\<rparr>"




definition armed :: "state \<Rightarrow> ref list" where
  "armed s = map (\<lambda>t. callback_auction (snd t)) (timers s)"

section \<open>Example inputs\<close>

definition oracle_ok :: env where
  "oracle_ok = (\<lambda>n. (True, 1))"

definition oracle_fail_at :: "nat \<Rightarrow> env" where
  "oracle_fail_at k = (\<lambda>n. (n \<noteq> k, 1))"

definition cred_u :: credential where
  "cred_u = \<lparr>cred_id = 1, username = ''u'', password = ''p''\<rparr>"

definition auction_far :: auction where
  "auction_far =
     \<lparr>auction_id = 1, timeToBid = Some 60000, idAuction = ''stg/1'', bidProxy = Some 5,
      address = ''1 Main St'', account = ''u'', bidPlaced = None\<rparr>"


definition logged_in_state :: state where
  "logged_in_state =
     (init ([], []))\<lparr>browserMap := [''u'' \<mapsto> \<lparr>browser = 0, page = 1, isLoggedIn = True\<rparr>]\<rparr>"

definition one_object_state :: state where
  "one_object_state =
     (init ([cred_u], [auction_far]))\<lparr>objs := (\<lambda>r. auction_far), nextRef := 1\<rparr>"

text \<open>
  The auction is armed, then the user clears the auction table, then the deadline arrives.
\<close>

definition cleared_before_deadline :: state where
  "cleared_before_deadline =
     run oracle_ok [FetchAuctionsData, SaveAuctions [], Advance 60000]
       (init ([cred_u], [auction_far]))"


definition cred_v :: credential where
  "cred_v = \<lparr>cred_id = 3, username = ''v'', password = ''q''\<rparr>"


definition auction_zero :: auction where
  "auction_zero =
     \<lparr>auction_id = 4, timeToBid = Some 60000, idAuction = ''stg/4'', bidProxy = Some 0,
      address = ''4 Main St'', account = ''v'', bidPlaced = None\<rparr>"

definition zero_object_state :: state where
  "zero_object_state =
     (init ([cred_v], [auction_zero]))\<lparr>objs := (\<lambda>r. auction_zero), nextRef := 1\<rparr>"



section \<open>Frames\<close>

lemma emit_frame [simp]:
  "browserMap (emit e s) = browserMap s" "bidTimeouts (emit e s) = bidTimeouts s"
  "timers (emit e s) = timers s" "nextTimeout (emit e s) = nextTimeout s"
  "nextHandle (emit e s) = nextHandle s" "objs (emit e s) = objs s"
  "nextRef (emit e s) = nextRef s" "store (emit e s) = store s"
  "clock (emit e s) = clock s" "tick (emit e s) = tick s"
  "trace (emit e s) = trace s @ [e]"
  by (simp_all add: emit_def)

lemma perform_frame [simp]:
  "browserMap (snd (perform env a s)) = browserMap s"
  "bidTimeouts (snd (perform env a s)) = bidTimeouts s"
  "timers (snd (perform env a s)) = timers s"
  "nextTimeout (snd (perform env a s)) = nextTimeout s"
  "nextHandle (snd (perform env a s)) = nextHandle s"
  "objs (snd (perform env a s)) = objs s"
  "nextRef (snd (perform env a s)) = nextRef s"
  "store (snd (perform env a s)) = store s"
  by (simp_all add: perform_def)

lemma perform_effect [simp]:
  "fst (perform env a s) = fst (env (tick s))"
  "tick (snd (perform env a s)) = Suc (tick s)"
  "clock (snd (perform env a s)) = clock s + int (snd (env (tick s)))"
  "trace (snd (perform env a s)) = trace s @ [Did a (fst (env (tick s)))]"
  by (simp_all add: perform_def)

lemma run_try_frame [simp]:
  "browserMap (snd (run_try env ss s)) = browserMap s"
  "bidTimeouts (snd (run_try env ss s)) = bidTimeouts s"
  "timers (snd (run_try env ss s)) = timers s"
  "nextTimeout (snd (run_try env ss s)) = nextTimeout s"
  "nextHandle (snd (run_try env ss s)) = nextHandle s"
  "objs (snd (run_try env ss s)) = objs s"
  "nextRef (snd (run_try env ss s)) = nextRef s"
  "store (snd (run_try env ss s)) = store s"
  by (induction env ss s rule: run_try.induct; simp)+

text \<open>A \<^verbatim>\<open>try\<close> block completes exactly when none of its actions throws.\<close>

lemma run_try_ok:
  "fst (run_try env ss s) \<longleftrightarrow> (\<forall>k < length (awaits ss). fst (env (tick s + k)))"
proof (induction env ss s rule: run_try.induct)
  case (2 env a rest s)
  show ?case
  proof (cases "fst (env (tick s))")
    case True
    have "(\<forall>k < Suc (length (awaits rest)). fst (env (tick s + k)))
            \<longleftrightarrow> (\<forall>k < length (awaits rest). fst (env (Suc (tick s) + k)))"
      using True by (auto simp: less_Suc_eq_0_disj)
    with True 2 show ?thesis by simp
  next
    case False
    then show ?thesis by auto
  qed
qed simp_all

lemma run_try_tick_ok:
  "fst (run_try env ss s) \<Longrightarrow> tick (snd (run_try env ss s)) = tick s + length (awaits ss)"
  by (induction env ss s rule: run_try.induct) (simp_all split: if_splits)

lemma run_try_trace: "prefix (trace s) (trace (snd (run_try env ss s)))"
proof (induction env ss s rule: run_try.induct)
  case (2 env a rest s)
  then show ?case by (auto intro: prefix_order.trans simp: prefix_def)
next
  case (3 env m rest s)
  then show ?case by (auto intro: prefix_order.trans simp: prefix_def)
qed simp_all

text \<open>What a \<^verbatim>\<open>try\<close> block does is an initial part of its actions, each done once.\<close>

lemma actions_append [simp]: "actions (xs @ ys) = actions xs @ actions ys"
  by (simp add: actions_def)

lemma attempts_append [simp]: "attempts (xs @ ys) = attempts xs @ attempts ys"
  by (simp add: attempts_def)

lemma actions_simps [simp]:
  "actions [] = []" "actions (Did a ok # tr) = a # actions tr"
  "actions (Info m # tr) = actions tr" "actions (Error f # tr) = actions tr"
  by (simp_all add: actions_def)

lemma attempts_simps [simp]:
  "attempts [] = []" "attempts (Did a ok # tr) = attempts tr"
  "attempts (Error f # tr) = attempts tr"
  "attempts (Info (PlaceBidMsg r) # tr) = r # attempts tr"
  by (simp_all add: attempts_def)

lemma attempts_Info: "(\<And>r. m \<noteq> PlaceBidMsg r) \<Longrightarrow> attempts (Info m # tr) = attempts tr"
  by (cases m) (auto simp: attempts_def)

lemma news_self [simp]: "news s s = []"
  by (simp add: news_def)

lemma news_append: "trace s' = trace s @ evs \<Longrightarrow> news s s' = evs"
  by (simp add: news_def)

lemma prefix_news: "prefix (trace s) (trace s') \<Longrightarrow> trace s' = trace s @ news s s'"
  by (auto simp: prefix_def news_def)

lemma news_trans:
  "prefix (trace s) (trace s1) \<Longrightarrow> prefix (trace s1) (trace s2) \<Longrightarrow>
   news s s2 = news s s1 @ news s1 s2"
  by (auto simp: prefix_def news_def)

lemma run_try_actions:
  "prefix (actions (news s (snd (run_try env ss s)))) (awaits ss)"
proof (induction env ss s rule: run_try.induct)
  case (2 env a rest s)
  let ?s1 = "snd (perform env a s)"
  have t: "trace ?s1 = trace s @ [Did a (fst (env (tick s)))]" by simp
  show ?case
  proof (cases "fst (env (tick s))")
    case True
    have "news s (snd (run_try env rest ?s1)) = news s ?s1 @ news ?s1 (snd (run_try env rest ?s1))"
      by (rule news_trans, simp, rule run_try_trace)
    with True 2 show ?thesis by (simp add: news_append[OF t])
  next
    case False
    then show ?thesis by (simp add: news_append[OF t])
  qed
next
  case (3 env m rest s)
  let ?s1 = "emit (Info m) s"
  have t: "trace ?s1 = trace s @ [Info m]" by simp
  have "news s (snd (run_try env rest ?s1)) = news s ?s1 @ news ?s1 (snd (run_try env rest ?s1))"
    by (rule news_trans, simp, rule run_try_trace)
  with 3 show ?case by (simp add: news_append[OF t])
next
  case (4 env n rest s)
  then show ?case by (simp add: news_def)
qed simp

lemma run_try_attempts:
  "(\<And>r. Say (PlaceBidMsg r) \<notin> set ss) \<Longrightarrow>
   attempts (trace (snd (run_try env ss s))) = attempts (trace s)"
proof (induction env ss s rule: run_try.induct)
  case (3 env m rest s)
  then show ?case by (cases m) (auto simp: attempts_def)
qed (simp_all split: if_splits)

section \<open>The record store\<close>

lemma loadData_frame [simp]:
  "browserMap (snd (loadData env s)) = browserMap s"
  "bidTimeouts (snd (loadData env s)) = bidTimeouts s"
  "timers (snd (loadData env s)) = timers s"
  "nextTimeout (snd (loadData env s)) = nextTimeout s"
  "nextHandle (snd (loadData env s)) = nextHandle s"
  "objs (snd (loadData env s)) = objs s"
  "nextRef (snd (loadData env s)) = nextRef s"
  "store (snd (loadData env s)) = store s"
  by (simp_all add: loadData_def Let_def)

lemma loadData_effect [simp]:
  "fst (loadData env s) = (if fst (env (tick s)) then store s else ([], []))"
  "tick (snd (loadData env s)) = Suc (tick s)"
  "clock (snd (loadData env s)) = clock s + int (snd (env (tick s)))"
  "attempts (trace (snd (loadData env s))) = attempts (trace s)"
  "actions (trace (snd (loadData env s))) = actions (trace s) @ [ReadFile]"
  by (simp_all add: loadData_def Let_def attempts_Info)

lemma loadData_trace: "prefix (trace s) (trace (snd (loadData env s)))"
  by (simp add: loadData_def Let_def prefix_def)

lemma saveData_frame [simp]:
  "browserMap (snd (saveData env d s)) = browserMap s"
  "bidTimeouts (snd (saveData env d s)) = bidTimeouts s"
  "timers (snd (saveData env d s)) = timers s"
  "nextTimeout (snd (saveData env d s)) = nextTimeout s"
  "nextHandle (snd (saveData env d s)) = nextHandle s"
  "objs (snd (saveData env d s)) = objs s"
  "nextRef (snd (saveData env d s)) = nextRef s"
  by (simp_all add: saveData_def Let_def)

lemma saveData_effect [simp]:
  "fst (saveData env d s) = fst (env (tick s))"
  "store (snd (saveData env d s)) = (if fst (env (tick s)) then d else store s)"
  "tick (snd (saveData env d s)) = Suc (tick s)"
  "clock (snd (saveData env d s)) = clock s + int (snd (env (tick s)))"
  "attempts (trace (snd (saveData env d s))) = attempts (trace s)"
  "actions (trace (snd (saveData env d s))) = actions (trace s) @ [WriteFile]"
  by (simp_all add: saveData_def Let_def attempts_Info)

lemma saveData_trace: "prefix (trace s) (trace (snd (saveData env d s)))"
  by (simp add: saveData_def Let_def prefix_def)

section \<open>Login\<close>

lemma ensureLoggedIn_frame [simp]:
  "bidTimeouts (snd (ensureLoggedIn env u p pg s)) = bidTimeouts s"
  "timers (snd (ensureLoggedIn env u p pg s)) = timers s"
  "nextTimeout (snd (ensureLoggedIn env u p pg s)) = nextTimeout s"
  "nextHandle (snd (ensureLoggedIn env u p pg s)) = nextHandle s"
  "objs (snd (ensureLoggedIn env u p pg s)) = objs s"
  "nextRef (snd (ensureLoggedIn env u p pg s)) = nextRef s"
  "store (snd (ensureLoggedIn env u p pg s)) = store s"
  by (simp_all add: ensureLoggedIn_def Let_def split: option.splits)

lemma ensureLoggedIn_trace: "prefix (trace s) (trace (snd (ensureLoggedIn env u p pg s)))"
  using run_try_trace[of s env "login_steps u p pg"]
  by (auto simp: ensureLoggedIn_def Let_def prefix_def split: option.splits)

lemma no_attempt_login: "Say (PlaceBidMsg r) \<notin> set (login_steps u p pg)"
  by (simp add: login_steps_def)

lemma ensureLoggedIn_attempts [simp]:
  "attempts (trace (snd (ensureLoggedIn env u p pg s))) = attempts (trace s)"
  by (simp add: ensureLoggedIn_def Let_def run_try_attempts no_attempt_login attempts_Info
      split: option.splits)

lemma ensureLoggedIn_ok: "browserMap s u \<noteq> None \<Longrightarrow> fst (ensureLoggedIn env u p pg s) = None"
  by (auto simp: ensureLoggedIn_def Let_def split: option.splits)

lemma ensureLoggedIn_browserMap_other:
  "v \<noteq> u \<Longrightarrow> browserMap (snd (ensureLoggedIn env u p pg s)) v = browserMap s v"
  by (simp add: ensureLoggedIn_def Let_def split: option.splits)

lemma ensureLoggedIn_dom:
  "browserMap (snd (ensureLoggedIn env u p pg s)) v = None \<longleftrightarrow> browserMap s v = None"
  by (simp add: ensureLoggedIn_def Let_def split: option.splits)

lemma ensureLoggedIn_page:
  "browserMap s v = Some x \<Longrightarrow>
   \<exists>y. browserMap (snd (ensureLoggedIn env u p pg s)) v = Some y \<and> page y = page x
        \<and> browser y = browser x"
  by (auto simp: ensureLoggedIn_def Let_def split: option.splits)

section \<open>Placing a bid\<close>

lemma no_attempt_bid: "Say (PlaceBidMsg q) \<notin> set (bid_steps a pg)"
  by (simp add: bid_steps_def)

lemma awaits_bid_steps:
  "awaits (bid_steps a pg) =
     [Goto pg (AuctionUrl (idAuction a)),
      WaitForSelector pg (PlaceBidInput (idAuction a)),
      Click pg (PlaceBidInput (idAuction a)) 3,
      TypeText pg (PlaceBidInput (idAuction a)) (Amount (newBid a)),
      WaitForSelector pg FirstPlaceBid,
      Click pg FirstPlaceBid 1,
      WaitForSelector pg SecondPlaceBid,
      Click pg SecondPlaceBid 1]"
  by (simp add: bid_steps_def)

lemma length_awaits_bid_steps [simp]: "length (awaits (bid_steps a pg)) = 8"
  by (simp add: bid_steps_def)

lemma mark_bidPlaced_frame [simp]:
  "browserMap (mark_bidPlaced env r s) = browserMap s"
  "bidTimeouts (mark_bidPlaced env r s) = bidTimeouts s"
  "timers (mark_bidPlaced env r s) = timers s"
  "nextTimeout (mark_bidPlaced env r s) = nextTimeout s"
  "nextHandle (mark_bidPlaced env r s) = nextHandle s"
  "nextRef (mark_bidPlaced env r s) = nextRef s"
  "attempts (trace (mark_bidPlaced env r s)) = attempts (trace s)"
  by (simp_all add: mark_bidPlaced_def Let_def split: option.splits)

lemma mark_bidPlaced_objs:
  "objs (mark_bidPlaced env r s) =
     (objs s)(r := (objs s r)\<lparr>bidPlaced := Some (clock s + int (snd (env (tick s))))\<rparr>)"
  by (simp add: mark_bidPlaced_def Let_def split: option.splits)

lemma mark_bidPlaced_trace: "prefix (trace s) (trace (mark_bidPlaced env r s))"
proof -
  let ?s1 = "snd (loadData env s)"
  have a: "prefix (trace s) (trace ?s1)" by (rule loadData_trace)
  have b: "prefix (trace (?s1\<lparr>objs := f\<rparr>)) (trace (snd (saveData env d (?s1\<lparr>objs := f\<rparr>))))" for f d
    by (rule saveData_trace)
  show ?thesis
    using a b by (auto simp: mark_bidPlaced_def Let_def split: option.splits
        intro: prefix_order.trans)
qed

lemma placeBid_frame [simp]:
  "browserMap (placeBid env r pg s) = browserMap s"
  "bidTimeouts (placeBid env r pg s) = bidTimeouts s"
  "timers (placeBid env r pg s) = timers s"
  "nextTimeout (placeBid env r pg s) = nextTimeout s"
  "nextHandle (placeBid env r pg s) = nextHandle s"
  "nextRef (placeBid env r pg s) = nextRef s"
  by (simp_all add: placeBid_def Let_def)

lemma placeBid_attempts [simp]:
  "attempts (trace (placeBid env r pg s)) = attempts (trace s) @ [r]"
  by (simp add: placeBid_def Let_def run_try_attempts no_attempt_bid)

lemma placeBid_trace: "prefix (trace s) (trace (placeBid env r pg s))"
proof -
  let ?s0 = "emit (Info (PlaceBidMsg r)) s"
  let ?s1 = "snd (run_try env (bid_steps (objs s r) pg) ?s0)"
  have a: "prefix (trace s) (trace ?s0)" by (simp add: prefix_def)
  have b: "prefix (trace ?s0) (trace ?s1)" by (rule run_try_trace)
  have c: "prefix (trace ?s1) (trace (mark_bidPlaced env r ?s1))" by (rule mark_bidPlaced_trace)
  have d: "prefix (trace ?s1) (trace (emit (Error PlaceBidError) ?s1))" by (simp add: prefix_def)
  from a b have ab: "prefix (trace s) (trace ?s1)" by (rule prefix_order.trans)
  from ab c have "prefix (trace s) (trace (mark_bidPlaced env r ?s1))"
    by (rule prefix_order.trans)
  moreover from ab d have "prefix (trace s) (trace (emit (Error PlaceBidError) ?s1))"
    by (rule prefix_order.trans)
  ultimately show ?thesis
    by (simp add: placeBid_def Let_def)
qed

lemma placeBid_objs:
  "objs (placeBid env r pg s) q = (objs s q)\<lparr>bidPlaced := bidPlaced (objs (placeBid env r pg s) q)\<rparr>"
  by (simp add: placeBid_def Let_def mark_bidPlaced_objs)

lemma run_try_abort:
  "\<not> fst (run_try env ss s) \<Longrightarrow>
   \<exists>j < length (awaits ss). \<not> fst (env (tick s + j)) \<and> (\<forall>i<j. fst (env (tick s + i)))
     \<and> actions (news s (snd (run_try env ss s))) = take (Suc j) (awaits ss)"
proof (induction env ss s rule: run_try.induct)
  case (2 env a rest s)
  let ?s1 = "snd (perform env a s)"
  have t: "trace ?s1 = trace s @ [Did a (fst (env (tick s)))]" by simp
  show ?case
  proof (cases "fst (env (tick s))")
    case True
    with 2 obtain j where j: "j < length (awaits rest)" "\<not> fst (env (Suc (tick s) + j))"
      "\<forall>i<j. fst (env (Suc (tick s) + i))"
      "actions (news ?s1 (snd (run_try env rest ?s1))) = take (Suc j) (awaits rest)"
      by auto
    have n: "news s (snd (run_try env rest ?s1)) = news s ?s1 @ news ?s1 (snd (run_try env rest ?s1))"
      by (rule news_trans, simp, rule run_try_trace)
    have "\<forall>i<Suc j. fst (env (tick s + i))"
      using True j(3) by (auto simp: less_Suc_eq_0_disj)
    with j True n show ?thesis
      by (intro exI[of _ "Suc j"]) (simp add: news_append[OF t])
  next
    case False
    then show ?thesis
      by (intro exI[of _ 0]) (simp add: news_append[OF t])
  qed
next
  case (3 env m rest s)
  let ?s1 = "emit (Info m) s"
  have t: "trace ?s1 = trace s @ [Info m]" by simp
  have n: "news s (snd (run_try env rest ?s1)) = news s ?s1 @ news ?s1 (snd (run_try env rest ?s1))"
    by (rule news_trans, simp, rule run_try_trace)
  from 3 show ?case by (simp add: n news_append[OF t])
next
  case (4 env n rest s)
  then show ?case by (simp add: news_def)
qed simp

lemma run_try_clock_ok:
  "fst (run_try env ss s) \<Longrightarrow>
   clock (snd (run_try env ss s)) =
     clock s + (\<Sum>j<length (awaits ss). int (snd (env (tick s + j))))
       + (\<Sum>x\<leftarrow>ss. case x of Sleep n \<Rightarrow> int n | _ \<Rightarrow> 0)"
proof (induction env ss s rule: run_try.induct)
  case (2 env a rest s)
  then have ok: "fst (env (tick s))" by (simp split: if_splits)
  have "(\<Sum>j<Suc (length (awaits rest)). int (snd (env (tick s + j))))
      = int (snd (env (tick s))) + (\<Sum>j<length (awaits rest). int (snd (env (Suc (tick s) + j))))"
    by (subst sum.lessThan_Suc_shift) simp
  with 2 ok show ?case by simp
qed simp_all

lemma findIndex_Some:
  "findIndex P xs = Some i \<Longrightarrow> i < length xs \<and> P (xs ! i) \<and> (\<forall>j<i. \<not> P (xs ! j))"
proof (induction xs arbitrary: i)
  case (Cons x xs)
  then show ?case
    by (auto split: if_splits simp: nth_Cons split: nat.splits)
qed simp

lemma findIndex_None: "findIndex P xs = None \<longleftrightarrow> (\<forall>x \<in> set xs. \<not> P x)"
  by (induction xs) auto

text \<open>
  C9: on a session whose \<^verbatim>\<open>isLoggedIn\<close> flag is true, \<^verbatim>\<open>ensureLoggedIn\<close> returns at
  once: it writes one log line and performs no action (no navigation, no typing, no click),
  and so does a second call after it.
\<close>

theorem ensureLoggedIn_already_logged_in:
  assumes "browserMap s u = Some sess" and "isLoggedIn sess"
  shows "ensureLoggedIn env u p pg s = (None, emit (Info (AlreadyLoggedIn u)) s)
       \<and> actions (news s (snd (ensureLoggedIn env u p pg s))) = []
       \<and> browserMap (snd (ensureLoggedIn env u p pg s)) = browserMap s
       \<and> tick (snd (ensureLoggedIn env u p pg s)) = tick s
       \<and> clock (snd (ensureLoggedIn env u p pg s)) = clock s
       \<and> actions (news s (snd (ensureLoggedIn env u p pg
                                (snd (ensureLoggedIn env u p pg s))))) = []"
proof -
  have 1: "ensureLoggedIn env u p pg s = (None, emit (Info (AlreadyLoggedIn u)) s)"
    using assms by (simp add: ensureLoggedIn_def)
  have "browserMap (emit (Info (AlreadyLoggedIn u)) s) u = Some sess"
    using assms by simp
  then have 2: "ensureLoggedIn env u p pg (emit (Info (AlreadyLoggedIn u)) s)
      = (None, emit (Info (AlreadyLoggedIn u)) (emit (Info (AlreadyLoggedIn u)) s))"
    using assms by (simp add: ensureLoggedIn_def)
  show ?thesis
    by (simp add: 1 2 news_def)
qed

theorem ensureLoggedIn_already_logged_in_witness:
  "ensureLoggedIn (\<lambda>n. (False, 0)) ''u'' ''p'' 1 logged_in_state
     = (None, emit (Info (AlreadyLoggedIn ''u'')) logged_in_state)
   \<and> actions (news logged_in_state
        (snd (ensureLoggedIn (\<lambda>n. (False, 0)) ''u'' ''p'' 1 logged_in_state))) = []"
proof -
  have a: "browserMap logged_in_state ''u'' = Some \<lparr>browser = 0, page = 1, isLoggedIn = True\<rparr>"
    by (simp add: logged_in_state_def)
  have b: "isLoggedIn \<lparr>browser = 0, page = 1, isLoggedIn = True\<rparr>" by simp
  from ensureLoggedIn_already_logged_in[OF a b, of "\<lambda>n. (False, 0)" "''p''" 1]
  show ?thesis by blast
qed

text \<open>
  C4: when one of the eight awaited steps of \<^verbatim>\<open>placeBid\<close> throws, the sequence stops
  at the first step that throws (the actions done are an initial part of the sequence, none
  repeated), the error is logged, and neither the auction object nor the store nor any
  timer or session changes.
\<close>

theorem placeBid_error_aborts:
  assumes "k < 8" and "\<not> fst (env (tick s + k))"
  shows "objs (placeBid env r pg s) = objs s
       \<and> store (placeBid env r pg s) = store s
       \<and> browserMap (placeBid env r pg s) = browserMap s
       \<and> timers (placeBid env r pg s) = timers s
       \<and> bidTimeouts (placeBid env r pg s) = bidTimeouts s
       \<and> last (trace (placeBid env r pg s)) = Error PlaceBidError
       \<and> attempts (news s (placeBid env r pg s)) = [r]
       \<and> (\<exists>j\<le>k. actions (news s (placeBid env r pg s))
                   = take (Suc j) (awaits (bid_steps (objs s r) pg)))"
proof -
  let ?s0 = "emit (Info (PlaceBidMsg r)) s"
  let ?ss = "bid_steps (objs s r) pg"
  let ?s1 = "snd (run_try env ?ss ?s0)"
  have fail: "\<not> fst (run_try env ?ss ?s0)"
    using assms by (auto simp: run_try_ok)
  then have pb: "placeBid env r pg s = emit (Error PlaceBidError) ?s1"
    by (simp add: placeBid_def Let_def)
  from run_try_abort[OF fail] obtain j where j: "j < 8" "\<not> fst (env (tick s + j))"
    "\<forall>i<j. fst (env (tick s + i))" "actions (news ?s0 ?s1) = take (Suc j) (awaits ?ss)"
    by auto
  have jk: "j \<le> k"
    using j(3) assms(2) by (meson not_le)
  have p01: "prefix (trace ?s0) (trace ?s1)" by (rule run_try_trace)
  have tr: "trace (placeBid env r pg s) = trace s @ Info (PlaceBidMsg r) # news ?s0 ?s1 @ [Error PlaceBidError]"
    using prefix_news[OF p01] by (simp add: pb)
  have att: "attempts (news ?s0 ?s1) = []"
    using run_try_attempts[of ?ss env ?s0] prefix_news[OF p01]
    by (simp add: no_attempt_bid)
  have nw: "news s (placeBid env r pg s) = Info (PlaceBidMsg r) # news ?s0 ?s1 @ [Error PlaceBidError]"
    using tr by (simp add: news_def)
  have c1: "objs (placeBid env r pg s) = objs s" "store (placeBid env r pg s) = store s"
    by (simp_all add: pb)
  have c2: "last (trace (placeBid env r pg s)) = Error PlaceBidError"
    by (simp add: tr)
  have c3: "attempts (news s (placeBid env r pg s)) = [r]"
    by (simp add: nw att)
  have c4: "\<exists>j\<le>k. actions (news s (placeBid env r pg s)) = take (Suc j) (awaits ?ss)"
    using jk j(4) by (intro exI[of _ j]) (simp add: nw)
  from c1 c2 c3 c4 show ?thesis by simp
qed

theorem placeBid_error_aborts_witness:
  "(2::nat) < 8 \<and> \<not> fst (oracle_fail_at 2 (tick one_object_state + 2))
   \<and> objs (placeBid (oracle_fail_at 2) 0 1 one_object_state) = objs one_object_state
   \<and> store (placeBid (oracle_fail_at 2) 0 1 one_object_state) = store one_object_state
   \<and> last (trace (placeBid (oracle_fail_at 2) 0 1 one_object_state)) = Error PlaceBidError
   \<and> attempts (news one_object_state (placeBid (oracle_fail_at 2) 0 1 one_object_state)) = [0]"
proof -
  have a: "(2::nat) < 8" by simp
  have b: "\<not> fst (oracle_fail_at 2 (tick one_object_state + 2))"
    by (simp add: oracle_fail_at_def one_object_state_def init_def)
  from placeBid_error_aborts[of 2 "oracle_fail_at 2" one_object_state 0 1] a b
  show ?thesis by blast
qed

lemmas eval_defs =
  run_def init_def fetch_auctions_data_def stop_update_def save_auctions_def
  save_credentials_def loadData_def saveData_def perform_def emit_def clear_bidTimeouts_def
  clearTimeout_def handleUserBids_def acquire_def positive_bid_def launch_session_def ensureLoggedIn_def
  login_steps_def schedule_bid_def setTimeout_placeBid_def advance_def fire_timer_def due_def
  effective_delay_def placeBid_def bid_steps_def mark_bidPlaced_def newBid_def news_def bid_iteration_def
  bid_loop_def new_timers_def
  armed_def Let_def

lemma sum_sleeps_bid_steps:
  "(\<Sum>x\<leftarrow>bid_steps a pg. case x of Sleep n \<Rightarrow> int n | _ \<Rightarrow> 0) = 3000"
  by (simp add: bid_steps_def)

lemma mark_bidPlaced_store:
  "store (mark_bidPlaced env r s) =
     (if fst (env (tick s)) \<and> fst (env (Suc (tick s))) then
        (case findIndex (\<lambda>a. auction_id a = auction_id (objs s r)) (snd (store s)) of
           None \<Rightarrow> store s
         | Some idx \<Rightarrow>
             (fst (store s),
              (snd (store s))[idx := (snd (store s) ! idx)
                 \<lparr>bidPlaced := Some (clock s + int (snd (env (tick s))))\<rparr>]))
      else store s)"
  by (simp add: mark_bidPlaced_def Let_def split: option.splits)

text \<open>
  C5 (amended): when all eight awaited steps of \<^verbatim>\<open>placeBid\<close> succeed, the auction object
  is stamped with the clock read after the store has been re-read; the store is written back,
  with the first record of the same id stamped, when that read finds such a record and both
  the read and the write succeed; otherwise the store stays as it is.
\<close>

theorem placeBid_success_marks:
  assumes "\<forall>k<8. fst (env (tick s + k))"
  shows "objs (placeBid env r pg s) =
           (objs s)(r := (objs s r)
              \<lparr>bidPlaced := Some (clock s + (\<Sum>j<9. int (snd (env (tick s + j)))) + 3000)\<rparr>)
       \<and> store (placeBid env r pg s) =
           (if fst (env (tick s + 8)) \<and> fst (env (tick s + 9)) then
              (case findIndex (\<lambda>a. auction_id a = auction_id (objs s r)) (snd (store s)) of
                 None \<Rightarrow> store s
               | Some idx \<Rightarrow>
                   (fst (store s),
                    (snd (store s))[idx := (snd (store s) ! idx)
                       \<lparr>bidPlaced :=
                          Some (clock s + (\<Sum>j<9. int (snd (env (tick s + j)))) + 3000)\<rparr>]))
            else store s)"
proof -
  let ?s0 = "emit (Info (PlaceBidMsg r)) s"
  let ?ss = "bid_steps (objs s r) pg"
  let ?s1 = "snd (run_try env ?ss ?s0)"
  have ok: "fst (run_try env ?ss ?s0)"
    using assms by (simp add: run_try_ok)
  then have pb: "placeBid env r pg s = mark_bidPlaced env r ?s1"
    by (simp add: placeBid_def Let_def)
  have tk: "tick ?s1 = tick s + 8"
    using run_try_tick_ok[OF ok] by simp
  have ck: "clock ?s1 = clock s + (\<Sum>j<8. int (snd (env (tick s + j)))) + 3000"
    using run_try_clock_ok[OF ok] by (simp add: sum_sleeps_bid_steps)
  have now: "clock ?s1 + int (snd (env (tick ?s1)))
           = clock s + (\<Sum>j<9. int (snd (env (tick s + j)))) + 3000"
    by (simp add: tk ck eval_nat_numeral)
  have o: "objs (placeBid env r pg s) =
      (objs s)(r := (objs s r)\<lparr>bidPlaced := Some (clock ?s1 + int (snd (env (tick ?s1))))\<rparr>)"
    by (simp add: pb mark_bidPlaced_objs)
  have st: "store (placeBid env r pg s) =
      (if fst (env (tick s + 8)) \<and> fst (env (tick s + 9)) then
        (case findIndex (\<lambda>a. auction_id a = auction_id (objs s r)) (snd (store s)) of
           None \<Rightarrow> store s
         | Some idx \<Rightarrow>
             (fst (store s),
              (snd (store s))[idx := (snd (store s) ! idx)
                 \<lparr>bidPlaced := Some (clock ?s1 + int (snd (env (tick ?s1))))\<rparr>]))
       else store s)"
    by (simp add: pb mark_bidPlaced_store tk eval_nat_numeral split: option.splits)
  show ?thesis
    using o st unfolding now by blast
qed

theorem placeBid_success_marks_witness:
  "bidPlaced (objs (placeBid oracle_ok 0 1 one_object_state) 0) = Some 3009
   \<and> store (placeBid oracle_ok 0 1 one_object_state)
       = ([cred_u], [auction_far\<lparr>bidPlaced := Some 3009\<rparr>])"
proof -
  have a: "\<forall>k<8. fst (oracle_ok (tick one_object_state + k))"
    by (simp add: oracle_ok_def)
  have b: "findIndex (\<lambda>a. auction_id a = auction_id (objs one_object_state 0))
             (snd (store one_object_state)) = Some 0"
    by (simp add: one_object_state_def init_def)
  from placeBid_success_marks[OF a, of 0 1] b show ?thesis
    by (simp add: oracle_ok_def one_object_state_def init_def)
qed

text \<open>
  C5 as stated fails: the auction was armed, the table was cleared before the deadline, the
  timer fired and every step of the bid succeeded; the store holds no stamped record.
\<close>

theorem placeBid_success_not_persisted:
  "timers cleared_before_deadline =
     [(0, \<lparr>armed_at = 9, delay = 59991, callback_auction = 0, callback_page = 1\<rparr>)]
   \<and> actions (news cleared_before_deadline (fire_timer oracle_ok 0 cleared_before_deadline))
       = awaits (bid_steps auction_far 1) @ [ReadFile]
   \<and> Error PlaceBidError \<notin> set (trace (fire_timer oracle_ok 0 cleared_before_deadline))
   \<and> bidPlaced (objs (fire_timer oracle_ok 0 cleared_before_deadline) 0) = Some 63020
   \<and> store (fire_timer oracle_ok 0 cleared_before_deadline) = ([cred_u], [])"
  by (simp add: cleared_before_deadline_def oracle_ok_def cred_u_def auction_far_def eval_defs)

section \<open>The loop over the eligible auctions\<close>

lemma unstamped_fields:
  "unstamped a = unstamped b \<Longrightarrow>
     auction_id a = auction_id b \<and> timeToBid a = timeToBid b \<and> idAuction a = idAuction b
     \<and> bidProxy a = bidProxy b \<and> address a = address b \<and> account a = account b"
  by (cases a, cases b) (simp add: unstamped_def)

lemma unstamped_positive_bid: "unstamped a = unstamped b \<Longrightarrow> positive_bid a = positive_bid b"
  by (drule unstamped_fields) (simp add: positive_bid_def)

lemma unstamped_update [simp]: "unstamped (a\<lparr>bidPlaced := x\<rparr>) = unstamped a"
  by (simp add: unstamped_def)

lemma placeBid_unstamped [simp]: "unstamped (objs (placeBid env r pg s) q) = unstamped (objs s q)"
  by (simp add: placeBid_def Let_def mark_bidPlaced_objs)

lemma schedule_bid_simps [simp]:
  "browserMap (schedule_bid u r pg d s) = browserMap s"
  "nextHandle (schedule_bid u r pg d s) = nextHandle s"
  "objs (schedule_bid u r pg d s) = objs s"
  "nextRef (schedule_bid u r pg d s) = nextRef s"
  "store (schedule_bid u r pg d s) = store s"
  "clock (schedule_bid u r pg d s) = clock s"
  "tick (schedule_bid u r pg d s) = tick s"
  "nextTimeout (schedule_bid u r pg d s) = Suc (nextTimeout s)"
  "trace (schedule_bid u r pg d s) = trace s @ [Info (SchedulingMsg r d)]"
  "timers (schedule_bid u r pg d s) = timers s @
     [(nextTimeout s,
       \<lparr>armed_at = clock s, delay = d, callback_auction = r, callback_page = pg\<rparr>)]"
  "bidTimeouts (schedule_bid u r pg d s) = bidTimeouts s @
     [\<lparr>timeoutId = nextTimeout s, auctionId = auction_id (objs s r), pending_username = u\<rparr>]"
  by (simp_all add: schedule_bid_def setTimeout_placeBid_def Let_def)

lemma bid_loop_simps [simp]:
  "bid_loop env u pg [] s = s"
  "bid_loop env u pg (r # rest) s = bid_loop env u pg rest (bid_iteration env u pg r s)"
  "bid_loop env u pg (xs @ ys) s = bid_loop env u pg ys (bid_loop env u pg xs s)"
  by (simp_all add: bid_loop_def)

lemma bid_iteration_frame [simp]:
  "browserMap (bid_iteration env u pg r s) = browserMap s"
  "nextHandle (bid_iteration env u pg r s) = nextHandle s"
  "nextRef (bid_iteration env u pg r s) = nextRef s"
  "unstamped (objs (bid_iteration env u pg r s) q) = unstamped (objs s q)"
  by (simp_all add: bid_iteration_def Let_def split: option.splits)

lemma bid_iteration_trace: "prefix (trace s) (trace (bid_iteration env u pg r s))"
  by (simp add: bid_iteration_def Let_def placeBid_trace split: option.splits)

lemma bid_loop_frame [simp]:
  "browserMap (bid_loop env u pg rs s) = browserMap s"
  "nextHandle (bid_loop env u pg rs s) = nextHandle s"
  "nextRef (bid_loop env u pg rs s) = nextRef s"
  "unstamped (objs (bid_loop env u pg rs s) q) = unstamped (objs s q)"
  by (induction rs arbitrary: s; simp)+

lemma bid_loop_trace: "prefix (trace s) (trace (bid_loop env u pg rs s))"
proof (induction rs arbitrary: s)
  case (Cons r rs)
  from bid_iteration_trace Cons show ?case
    unfolding bid_loop_simps by (rule prefix_order.trans)
qed simp

lemma attempts_news:
  "prefix (trace s) (trace s') \<Longrightarrow> attempts (trace s') = attempts (trace s) @ attempts (news s s')"
  by (auto simp: prefix_def news_def)

lemma bid_iteration_attempts:
  "attempts (trace (bid_iteration env u pg r s)) = attempts (trace s)
   \<or> attempts (trace (bid_iteration env u pg r s)) = attempts (trace s) @ [r]"
  by (simp add: bid_iteration_def Let_def attempts_Info split: option.splits)

text \<open>The bids placed inside the loop are placed in the order of the list.\<close>

lemma bid_loop_attempts:
  "\<exists>xs. attempts (trace (bid_loop env u pg rs s)) = attempts (trace s) @ xs \<and> subseq xs rs"
proof (induction rs arbitrary: s)
  case (Cons r rs)
  let ?s1 = "bid_iteration env u pg r s"
  from Cons obtain xs where xs:
    "attempts (trace (bid_loop env u pg rs ?s1)) = attempts (trace ?s1) @ xs" "subseq xs rs"
    by blast
  from bid_iteration_attempts[of env u pg r s] show ?case
  proof
    assume "attempts (trace ?s1) = attempts (trace s)"
    with xs show ?thesis by (intro exI[of _ xs]) (simp add: list_emb_Cons)
  next
    assume "attempts (trace ?s1) = attempts (trace s) @ [r]"
    with xs show ?thesis by (intro exI[of _ "r # xs"]) simp
  qed
qed simp

lemma bid_loop_attempts_news: "subseq (attempts (news s (bid_loop env u pg rs s))) rs"
  using bid_loop_attempts[of env u pg rs s]
    attempts_news[OF bid_loop_trace[of s env u pg rs]]
  by auto

lemma perform_clock_mono: "clock s \<le> clock (snd (perform env a s))"
  by simp

lemma run_try_clock_mono: "clock s \<le> clock (snd (run_try env ss s))"
proof (induction env ss s rule: run_try.induct)
  case (2 env a rest s)
  have "clock s \<le> clock (snd (perform env a s))" by simp
  with 2 show ?case by (auto simp del: perform_effect intro: order_trans)
next
  case (4 env n rest s)
  have "clock s \<le> clock (s\<lparr>clock := clock s + int n\<rparr>)" by simp
  with 4 show ?case by (auto intro: order_trans)
qed simp_all

lemma mark_bidPlaced_clock_mono: "clock s \<le> clock (mark_bidPlaced env r s)"
  by (simp add: mark_bidPlaced_def Let_def split: option.splits)

lemma placeBid_clock_mono: "clock s \<le> clock (placeBid env r pg s)"
proof -
  let ?s0 = "emit (Info (PlaceBidMsg r)) s"
  let ?s1 = "snd (run_try env (bid_steps (objs s r) pg) ?s0)"
  have a: "clock s \<le> clock ?s1"
    using run_try_clock_mono[of ?s0 env "bid_steps (objs s r) pg"] by simp
  have b: "clock ?s1 \<le> clock (mark_bidPlaced env r ?s1)" by (rule mark_bidPlaced_clock_mono)
  from a b show ?thesis by (simp add: placeBid_def Let_def)
qed

lemma bid_iteration_clock_mono: "clock s \<le> clock (bid_iteration env u pg r s)"
  by (simp add: bid_iteration_def Let_def placeBid_clock_mono split: option.splits)

text \<open>
  What one iteration does to the timers: nothing, or one timer more, whose delay is the
  deadline minus the clock at that moment.
\<close>

lemma bid_iteration_timers:
  "(timers (bid_iteration env u pg r s) = timers s
      \<and> bidTimeouts (bid_iteration env u pg r s) = bidTimeouts s
      \<and> nextTimeout (bid_iteration env u pg r s) = nextTimeout s)
   \<or> (\<exists>d. timeToBid (objs s r) = Some d \<and> 0 < d - clock s
        \<and> timers (bid_iteration env u pg r s) = timers s @
             [(nextTimeout s, \<lparr>armed_at = clock s, delay = d - clock s,
                               callback_auction = r, callback_page = pg\<rparr>)]
        \<and> bidTimeouts (bid_iteration env u pg r s) = bidTimeouts s @
             [\<lparr>timeoutId = nextTimeout s, auctionId = auction_id (objs s r),
               pending_username = u\<rparr>]
        \<and> nextTimeout (bid_iteration env u pg r s) = Suc (nextTimeout s))"
  by (simp add: bid_iteration_def Let_def split: option.splits)

lemma exact_timer_mono:
  assumes "exact_timer s1 u pg t" "clock s \<le> clock s1" "nextTimeout s \<le> nextTimeout s1"
    "\<And>q. unstamped (objs s1 q) = unstamped (objs s q)"
  shows "exact_timer s u pg t"
proof -
  have "timeToBid (objs s1 q) = timeToBid (objs s q)" for q
    using unstamped_fields[OF assms(4)] by blast
  with assms(1,2,3) show ?thesis by (auto simp: exact_timer_def split: option.splits)
qed

lemma entry_of_mono:
  assumes "\<And>q. unstamped (objs s1 q) = unstamped (objs s q)"
  shows "entry_of s1 u t = entry_of s u t"
proof -
  have "auction_id (objs s1 q) = auction_id (objs s q)" for q
    using unstamped_fields[OF assms] by blast
  then show ?thesis by (simp add: entry_of_def)
qed

lemma bid_loop_timers:
  "\<exists>ts. timers (bid_loop env u pg rs s) = timers s @ ts
      \<and> bidTimeouts (bid_loop env u pg rs s) = bidTimeouts s @ map (entry_of s u) ts
      \<and> map fst ts = [nextTimeout s ..< nextTimeout (bid_loop env u pg rs s)]
      \<and> nextTimeout s \<le> nextTimeout (bid_loop env u pg rs s)
      \<and> clock s \<le> clock (bid_loop env u pg rs s)
      \<and> subseq (map (\<lambda>t. callback_auction (snd t)) ts) rs
      \<and> (\<forall>t \<in> set ts. exact_timer s u pg t)"
proof (induction rs arbitrary: s)
  case Nil
  show ?case by simp
next
  case (Cons r rs)
  let ?s1 = "bid_iteration env u pg r s"
  let ?s2 = "bid_loop env u pg rs ?s1"
  from Cons[of ?s1] obtain ts where ts:
    "timers ?s2 = timers ?s1 @ ts"
    "bidTimeouts ?s2 = bidTimeouts ?s1 @ map (entry_of ?s1 u) ts"
    "map fst ts = [nextTimeout ?s1 ..< nextTimeout ?s2]"
    "nextTimeout ?s1 \<le> nextTimeout ?s2"
    "clock ?s1 \<le> clock ?s2"
    "subseq (map (\<lambda>t. callback_auction (snd t)) ts) rs"
    "\<forall>t \<in> set ts. exact_timer ?s1 u pg t"
    by blast
  have un: "\<And>q. unstamped (objs ?s1 q) = unstamped (objs s q)" by simp
  have ck: "clock s \<le> clock ?s1" by (rule bid_iteration_clock_mono)
  have en: "map (entry_of ?s1 u) ts = map (entry_of s u) ts"
    using entry_of_mono[OF un] by simp
  from bid_iteration_timers[of env u pg r s] show ?case
  proof (elim disjE exE conjE)
    assume a: "timers ?s1 = timers s" "bidTimeouts ?s1 = bidTimeouts s"
      "nextTimeout ?s1 = nextTimeout s"
    have "\<forall>t \<in> set ts. exact_timer s u pg t"
      using ts(7) exact_timer_mono[OF _ ck _ un] a(3) by auto
    with ts a ck en show ?thesis
      by (intro exI[of _ ts]) (simp add: list_emb_Cons)
  next
    fix d
    assume a: "timeToBid (objs s r) = Some d" "0 < d - clock s"
      "timers ?s1 = timers s @
             [(nextTimeout s, \<lparr>armed_at = clock s, delay = d - clock s,
                               callback_auction = r, callback_page = pg\<rparr>)]"
      "bidTimeouts ?s1 = bidTimeouts s @
             [\<lparr>timeoutId = nextTimeout s, auctionId = auction_id (objs s r),
               pending_username = u\<rparr>]"
      "nextTimeout ?s1 = Suc (nextTimeout s)"
    let ?t0 = "(nextTimeout s, \<lparr>armed_at = clock s, delay = d - clock s,
                               callback_auction = r, callback_page = pg\<rparr>)"
    have e0: "exact_timer s u pg ?t0"
      using a(1,2) by (simp add: exact_timer_def)
    have "\<forall>t \<in> set ts. exact_timer s u pg t"
      using ts(7) exact_timer_mono[OF _ ck _ un] a(5) by auto
    with e0 have ex: "\<forall>t \<in> set (?t0 # ts). exact_timer s u pg t" by simp
    have ids: "map fst (?t0 # ts) = [nextTimeout s ..< nextTimeout ?s2]"
      using ts(3,4) a(5) by (simp add: upt_conv_Cons)
    have "timers ?s2 = timers s @ ?t0 # ts" using ts(1) a(3) by simp
    moreover have "bidTimeouts ?s2 = bidTimeouts s @ map (entry_of s u) (?t0 # ts)"
      using ts(2) a(4) en by (simp add: entry_of_def)
    moreover have "subseq (map (\<lambda>t. callback_auction (snd t)) (?t0 # ts)) (r # rs)"
      using ts(6) by simp
    moreover have "nextTimeout s \<le> nextTimeout ?s2" using ts(4) a(5) by simp
    moreover have "clock s \<le> clock ?s2" using ts(5) ck by simp
    ultimately show ?thesis
      using ex ids unfolding bid_loop_simps by (intro exI[of _ "?t0 # ts"]) blast
  qed
qed

lemma bid_loop_new_timers:
  "timers (bid_loop env u pg rs s) = timers s @ new_timers s (bid_loop env u pg rs s)"
  using bid_loop_timers[of env u pg rs s] by (auto simp: new_timers_def)




section \<open>The session of an account\<close>

lemma launch_session_frame [simp]:
  "bidTimeouts (snd (launch_session env u s)) = bidTimeouts s"
  "timers (snd (launch_session env u s)) = timers s"
  "nextTimeout (snd (launch_session env u s)) = nextTimeout s"
  "objs (snd (launch_session env u s)) = objs s"
  "nextRef (snd (launch_session env u s)) = nextRef s"
  "store (snd (launch_session env u s)) = store s"
  "attempts (trace (snd (launch_session env u s))) = attempts (trace s)"
  by (simp_all add: launch_session_def Let_def)

lemma launch_session_trace: "prefix (trace s) (trace (snd (launch_session env u s)))"
  by (simp add: launch_session_def Let_def prefix_def)

lemma launch_session_clock_mono: "clock s \<le> clock (snd (launch_session env u s))"
  by (simp add: launch_session_def Let_def)

lemma launch_session_other:
  "v \<noteq> u \<Longrightarrow> browserMap (snd (launch_session env u s)) v = browserMap s v"
  by (simp add: launch_session_def Let_def)

lemma launch_session_None:
  "fst (launch_session env u s) = None \<Longrightarrow>
   \<exists>x. browserMap (snd (launch_session env u s)) u = Some x \<and> \<not> isLoggedIn x"
  by (simp add: launch_session_def Let_def split: if_splits)


lemma acquire_frame [simp]:
  "bidTimeouts (snd (acquire env u s)) = bidTimeouts s"
  "timers (snd (acquire env u s)) = timers s"
  "nextTimeout (snd (acquire env u s)) = nextTimeout s"
  "objs (snd (acquire env u s)) = objs s"
  "nextRef (snd (acquire env u s)) = nextRef s"
  "store (snd (acquire env u s)) = store s"
  "attempts (trace (snd (acquire env u s))) = attempts (trace s)"
  by (simp_all add: acquire_def)

lemma acquire_trace: "prefix (trace s) (trace (snd (acquire env u s)))"
  by (simp add: acquire_def launch_session_trace)

lemma acquire_clock_mono: "clock s \<le> clock (snd (acquire env u s))"
  by (simp add: acquire_def launch_session_clock_mono)

lemma acquire_other:
  "v \<noteq> u \<Longrightarrow> browserMap (snd (acquire env u s)) v = browserMap s v"
  by (simp add: acquire_def launch_session_other)

lemma acquire_None:
  "fst (acquire env u s) = None \<Longrightarrow> \<exists>x. browserMap (snd (acquire env u s)) u = Some x"
  using launch_session_None[of env u s] by (auto simp: acquire_def split: if_splits)


lemma ensureLoggedIn_clock_mono: "clock s \<le> clock (snd (ensureLoggedIn env u p pg s))"
  using run_try_clock_mono[of s env "login_steps u p pg"]
  by (simp add: ensureLoggedIn_def Let_def split: option.splits)

section \<open>The task of one account\<close>

text \<open>The three ways through \<^verbatim>\<open>handleUserBids\<close>.\<close>

lemma handleUserBids_skip:
  "filter (\<lambda>r. positive_bid (objs s r)) ua = [] \<Longrightarrow>
   handleUserBids env cred ua s = (None, emit (Info (SkippingUser (username cred))) s)"
  by (simp add: handleUserBids_def)

lemma handleUserBids_reject:
  "filter (\<lambda>r. positive_bid (objs s r)) ua \<noteq> [] \<Longrightarrow>
   fst (acquire env (username cred) s) = Some e \<Longrightarrow>
   handleUserBids env cred ua s = (Some e, snd (acquire env (username cred) s))"
  by (simp add: handleUserBids_def Let_def)

lemma handleUserBids_loop:
  assumes "filter (\<lambda>r. positive_bid (objs s r)) ua \<noteq> []"
    and "fst (acquire env (username cred) s) = None"
  shows "\<exists>sess. browserMap (snd (acquire env (username cred) s)) (username cred) = Some sess
     \<and> handleUserBids env cred ua s =
         (None, bid_loop env (username cred) (page sess)
                  (filter (\<lambda>r. positive_bid (objs s r)) ua)
                  (snd (ensureLoggedIn env (username cred) (password cred) (page sess)
                          (snd (acquire env (username cred) s)))))"
proof -
  from acquire_None[OF assms(2)] obtain sess where
    sess: "browserMap (snd (acquire env (username cred) s)) (username cred) = Some sess"
    by blast
  then have "fst (ensureLoggedIn env (username cred) (password cred) (page sess)
                    (snd (acquire env (username cred) s))) = None"
    by (simp add: ensureLoggedIn_ok)
  with assms sess show ?thesis
    by (simp add: handleUserBids_def Let_def)
qed

lemma handleUserBids_cases:
  obtains
    (skip) "filter (\<lambda>r. positive_bid (objs s r)) ua = []"
      "handleUserBids env cred ua s = (None, emit (Info (SkippingUser (username cred))) s)"
  | (reject) e where "filter (\<lambda>r. positive_bid (objs s r)) ua \<noteq> []"
      "fst (acquire env (username cred) s) = Some e"
      "handleUserBids env cred ua s = (Some e, snd (acquire env (username cred) s))"
  | (loop) sess where "filter (\<lambda>r. positive_bid (objs s r)) ua \<noteq> []"
      "fst (acquire env (username cred) s) = None"
      "browserMap (snd (acquire env (username cred) s)) (username cred) = Some sess"
      "handleUserBids env cred ua s =
         (None, bid_loop env (username cred) (page sess)
                  (filter (\<lambda>r. positive_bid (objs s r)) ua)
                  (snd (ensureLoggedIn env (username cred) (password cred) (page sess)
                          (snd (acquire env (username cred) s)))))"
proof (cases "filter (\<lambda>r. positive_bid (objs s r)) ua = []")
  case True
  then show ?thesis using handleUserBids_skip skip by blast
next
  case False
  show ?thesis
  proof (cases "fst (acquire env (username cred) s)")
    case None
    with False handleUserBids_loop[OF False None] loop show ?thesis by blast
  next
    case (Some e)
    with False handleUserBids_reject[OF False Some] reject show ?thesis by blast
  qed
qed

lemma handleUserBids_frame [simp]:
  "nextRef (snd (handleUserBids env cred ua s)) = nextRef s"
  "unstamped (objs (snd (handleUserBids env cred ua s)) q) = unstamped (objs s q)"
  by (cases rule: handleUserBids_cases[of s ua env cred]; simp)+

lemma handleUserBids_trace: "prefix (trace s) (trace (snd (handleUserBids env cred ua s)))"
proof (cases rule: handleUserBids_cases[of s ua env cred])
  case skip
  then show ?thesis by (simp add: prefix_def)
next
  case (reject e)
  then show ?thesis by (simp add: acquire_trace)
next
  case (loop sess)
  let ?sa = "snd (acquire env (username cred) s)"
  let ?sl = "snd (ensureLoggedIn env (username cred) (password cred) (page sess) ?sa)"
  have "prefix (trace s) (trace ?sa)" by (rule acquire_trace)
  also have "prefix (trace ?sa) (trace ?sl)" by (rule ensureLoggedIn_trace)
  also have "prefix (trace ?sl) (trace (bid_loop env (username cred) (page sess)
      (filter (\<lambda>r. positive_bid (objs s r)) ua) ?sl))" by (rule bid_loop_trace)
  finally show ?thesis using loop by simp
qed

lemma handleUserBids_other:
  "v \<noteq> username cred \<Longrightarrow> browserMap (snd (handleUserBids env cred ua s)) v = browserMap s v"
  by (cases rule: handleUserBids_cases[of s ua env cred])
     (simp_all add: acquire_other ensureLoggedIn_browserMap_other)


lemma handleUserBids_timers:
  "\<exists>ts. timers (snd (handleUserBids env cred ua s)) = timers s @ ts
      \<and> bidTimeouts (snd (handleUserBids env cred ua s))
          = bidTimeouts s @ map (entry_of s (username cred)) ts
      \<and> map fst ts = [nextTimeout s ..< nextTimeout (snd (handleUserBids env cred ua s))]
      \<and> nextTimeout s \<le> nextTimeout (snd (handleUserBids env cred ua s))
      \<and> clock s \<le> clock (snd (handleUserBids env cred ua s))
      \<and> subseq (map (\<lambda>t. callback_auction (snd t)) ts)
           (filter (\<lambda>r. positive_bid (objs s r)) ua)
      \<and> (\<forall>t \<in> set ts. \<exists>pg. exact_timer s (username cred) pg t)"
proof (cases rule: handleUserBids_cases[of s ua env cred])
  case skip
  then show ?thesis by (intro exI[of _ "[]"]) simp
next
  case (reject e)
  then show ?thesis by (intro exI[of _ "[]"]) (simp add: acquire_clock_mono)
next
  case (loop sess)
  let ?u = "username cred"
  let ?sa = "snd (acquire env ?u s)"
  let ?sl = "snd (ensureLoggedIn env ?u (password cred) (page sess) ?sa)"
  let ?atb = "filter (\<lambda>r. positive_bid (objs s r)) ua"
  let ?s' = "bid_loop env ?u (page sess) ?atb ?sl"
  from bid_loop_timers[of env ?u "page sess" ?atb ?sl] obtain ts where ts:
    "timers ?s' = timers ?sl @ ts"
    "bidTimeouts ?s' = bidTimeouts ?sl @ map (entry_of ?sl ?u) ts"
    "map fst ts = [nextTimeout ?sl ..< nextTimeout ?s']"
    "nextTimeout ?sl \<le> nextTimeout ?s'"
    "clock ?sl \<le> clock ?s'"
    "subseq (map (\<lambda>t. callback_auction (snd t)) ts) ?atb"
    "\<forall>t \<in> set ts. exact_timer ?sl ?u (page sess) t"
    by blast
  have un: "\<And>q. unstamped (objs ?sl q) = unstamped (objs s q)" by simp
  have ck: "clock s \<le> clock ?sl"
    using acquire_clock_mono[of s env ?u]
      ensureLoggedIn_clock_mono[of ?sa env ?u "password cred" "page sess"] by linarith
  have nt: "nextTimeout s \<le> nextTimeout ?sl" by simp
  have ex: "\<forall>t \<in> set ts. \<exists>pg. exact_timer s ?u pg t"
    using ts(7) exact_timer_mono[OF _ ck nt un] by blast
  have en: "map (entry_of ?sl ?u) ts = map (entry_of s ?u) ts"
    using entry_of_mono[OF un] by simp
  have s': "snd (handleUserBids env cred ua s) = ?s'" using loop by simp
  show ?thesis
    unfolding s' using ts ck ex en by (intro exI[of _ ts]) simp
qed

lemma handleUserBids_attempts:
  "subseq (attempts (news s (snd (handleUserBids env cred ua s))))
     (filter (\<lambda>r. positive_bid (objs s r)) ua)"
proof (cases rule: handleUserBids_cases[of s ua env cred])
  case skip
  then show ?thesis by (simp add: news_def attempts_Info)
next
  case (reject e)
  have "attempts (news s (snd (acquire env (username cred) s))) = []"
    using attempts_news[OF acquire_trace[of s env "username cred"]] by simp
  with reject show ?thesis by simp
next
  case (loop sess)
  let ?u = "username cred"
  let ?sa = "snd (acquire env ?u s)"
  let ?sl = "snd (ensureLoggedIn env ?u (password cred) (page sess) ?sa)"
  let ?atb = "filter (\<lambda>r. positive_bid (objs s r)) ua"
  let ?s' = "bid_loop env ?u (page sess) ?atb ?sl"
  from bid_loop_attempts[of env ?u "page sess" ?atb ?sl] obtain xs where
    xs: "attempts (trace ?s') = attempts (trace ?sl) @ xs" "subseq xs ?atb" by blast
  have s': "snd (handleUserBids env cred ua s) = ?s'" using loop by simp
  have "attempts (trace ?s') = attempts (trace s) @ attempts (news s ?s')"
    using attempts_news[OF handleUserBids_trace[of s env cred ua]] unfolding s' .
  with xs have "attempts (news s ?s') = xs" by simp
  with xs(2) show ?thesis unfolding s' by simp
qed

text \<open>Every auction of the loop that has a deadline is bid on or armed.\<close>

lemma bid_loop_covers:
  "\<exists>xs ts. attempts (trace (bid_loop env u pg rs s)) = attempts (trace s) @ xs
      \<and> timers (bid_loop env u pg rs s) = timers s @ ts
      \<and> (\<forall>r \<in> set rs. timeToBid (objs s r) \<noteq> None \<longrightarrow>
            r \<in> set xs \<or> r \<in> set (map (\<lambda>t. callback_auction (snd t)) ts))"
proof (induction rs arbitrary: s)
  case Nil
  show ?case by simp
next
  case (Cons r rs)
  let ?s1 = "bid_iteration env u pg r s"
  let ?s2 = "bid_loop env u pg rs ?s1"
  from Cons[of ?s1] obtain xs ts where IH:
    "attempts (trace ?s2) = attempts (trace ?s1) @ xs"
    "timers ?s2 = timers ?s1 @ ts"
    "\<forall>q \<in> set rs. timeToBid (objs ?s1 q) \<noteq> None \<longrightarrow>
        q \<in> set xs \<or> q \<in> set (map (\<lambda>t. callback_auction (snd t)) ts)"
    by blast
  have tb: "timeToBid (objs ?s1 q) = timeToBid (objs s q)" for q
    using unstamped_fields[of "objs ?s1 q" "objs s q"] by simp
  obtain x0 t0 where step:
    "attempts (trace ?s1) = attempts (trace s) @ x0"
    "timers ?s1 = timers s @ t0"
    "timeToBid (objs s r) \<noteq> None \<longrightarrow>
       r \<in> set x0 \<or> r \<in> set (map (\<lambda>t. callback_auction (snd t)) t0)"
  proof (cases "timeToBid (objs s r)")
    case None
    then show ?thesis
      using that[of "[]" "[]"] by (simp add: bid_iteration_def attempts_Info)
  next
    case (Some d)
    show ?thesis
    proof (cases "d - clock s \<le> 0")
      case True
      with Some show ?thesis
        using that[of "[r]" "[]"] by (simp add: bid_iteration_def)
    next
      case False
      with Some show ?thesis
        using that[of "[]" "[(nextTimeout s, \<lparr>armed_at = clock s, delay = d - clock s,
                            callback_auction = r, callback_page = pg\<rparr>)]"]
        by (simp add: bid_iteration_def attempts_Info)
    qed
  qed
  have "attempts (trace ?s2) = attempts (trace s) @ (x0 @ xs)"
    using IH(1) step(1) by simp
  moreover have "timers ?s2 = timers s @ (t0 @ ts)"
    using IH(2) step(2) by simp
  moreover have "\<forall>q \<in> set (r # rs). timeToBid (objs s q) \<noteq> None \<longrightarrow>
        q \<in> set (x0 @ xs) \<or> q \<in> set (map (\<lambda>t. callback_auction (snd t)) (t0 @ ts))"
    using IH(3) step(3) tb by auto
  ultimately show ?case
    unfolding bid_loop_simps by blast
qed

lemma new_timers_append: "timers s' = timers s @ ts \<Longrightarrow> new_timers s s' = ts"
  by (simp add: new_timers_def)



lemma actions_Cons: "actions (e # tr) = action_of e @ actions tr"
  by (simp add: actions_def)




lemma length_awaits_login_steps [simp]: "length (awaits (login_steps u p pg)) = 6"
  by (simp add: login_steps_def)

lemma mem_news_trans:
  "prefix (trace s) (trace s1) \<Longrightarrow> prefix (trace s1) (trace s2) \<Longrightarrow>
   e \<in> set (news s s1) \<Longrightarrow> e \<in> set (news s s2)"
  using news_trans[of s s1 s2] by simp

lemma mem_news_trans2:
  "prefix (trace s) (trace s1) \<Longrightarrow> prefix (trace s1) (trace s2) \<Longrightarrow>
   e \<in> set (news s1 s2) \<Longrightarrow> e \<in> set (news s s2)"
  using news_trans[of s s1 s2] by simp

text \<open>
  C10: when a step of the login throws, \<^verbatim>\<open>ensureLoggedIn\<close> catches and logs the error and
  leaves the flag false; \<^verbatim>\<open>handleUserBids\<close> goes on: it does not reject, and every
  eligible auction of the account that has a deadline is bid on in the pass or gets a timer.
\<close>

theorem login_failure_proceeds:
  assumes "filter (\<lambda>r. positive_bid (objs s r)) ua \<noteq> []"
    and "acquire env (username cred) s = (None, sa)"
    and "browserMap sa (username cred) = Some sess" and "\<not> isLoggedIn sess"
    and "k < 6" and "\<not> fst (env (tick sa + k))"
  shows "fst (ensureLoggedIn env (username cred) (password cred) (page sess) sa) = None
       \<and> last (trace (snd (ensureLoggedIn env (username cred) (password cred) (page sess) sa)))
           = Error (LoginError (username cred))
       \<and> fst (handleUserBids env cred ua s) = None
       \<and> Error (LoginError (username cred)) \<in> set (news s (snd (handleUserBids env cred ua s)))
       \<and> browserMap (snd (handleUserBids env cred ua s)) (username cred) = Some sess
       \<and> (\<forall>r \<in> set ua. positive_bid (objs s r) \<and> timeToBid (objs s r) \<noteq> None \<longrightarrow>
             r \<in> set (attempts (news s (snd (handleUserBids env cred ua s))))
             \<or> r \<in> set (map (\<lambda>t. callback_auction (snd t))
                          (new_timers s (snd (handleUserBids env cred ua s)))))"
proof -
  let ?u = "username cred"
  let ?atb = "filter (\<lambda>r. positive_bid (objs s r)) ua"
  let ?s1 = "snd (run_try env (login_steps ?u (password cred) (page sess)) sa)"
  let ?sl = "emit (Error (LoginError ?u)) ?s1"
  let ?s' = "bid_loop env ?u (page sess) ?atb ?sl"
  have fail: "\<not> fst (run_try env (login_steps ?u (password cred) (page sess)) sa)"
    using assms(5,6) by (auto simp: run_try_ok)
  have el: "ensureLoggedIn env ?u (password cred) (page sess) sa = (None, ?sl)"
    using assms(3,4) fail by (simp add: ensureLoggedIn_def Let_def)
  have acq: "fst (acquire env ?u s) = None" "snd (acquire env ?u s) = sa"
    using assms(2) by simp_all
  have hb: "handleUserBids env cred ua s = (None, ?s')"
    using assms(1,3) acq el by (simp add: handleUserBids_def Let_def)
  have p1: "prefix (trace s) (trace sa)"
    using acquire_trace[of s env ?u] acq by simp
  have p2: "prefix (trace sa) (trace ?sl)"
    using run_try_trace[of sa env "login_steps ?u (password cred) (page sess)"]
    by (auto simp: prefix_def)
  have p3: "prefix (trace ?sl) (trace ?s')" by (rule bid_loop_trace)
  have p12: "prefix (trace s) (trace ?sl)" using p1 p2 by (rule prefix_order.trans)
  have p13: "prefix (trace s) (trace ?s')" using p12 p3 by (rule prefix_order.trans)
  have "Error (LoginError ?u) \<in> set (news sa ?sl)"
    using run_try_trace[of sa env "login_steps ?u (password cred) (page sess)"]
    by (auto simp: prefix_def news_def)
  then have "Error (LoginError ?u) \<in> set (news s ?sl)"
    by (rule mem_news_trans2[OF p1 p2])
  then have c4: "Error (LoginError ?u) \<in> set (news s ?s')"
    by (rule mem_news_trans[OF p12 p3])
  have c5: "browserMap ?s' ?u = Some sess" using assms(3) by simp
  from bid_loop_covers[of env ?u "page sess" ?atb ?sl] obtain xs ts where cov:
    "attempts (trace ?s') = attempts (trace ?sl) @ xs"
    "timers ?s' = timers ?sl @ ts"
    "\<forall>r \<in> set ?atb. timeToBid (objs ?sl r) \<noteq> None \<longrightarrow>
        r \<in> set xs \<or> r \<in> set (map (\<lambda>t. callback_auction (snd t)) ts)"
    by blast
  have os: "objs ?sl = objs s" "timers ?sl = timers s"
    using acquire_frame(2,4)[of env ?u s] acq by simp_all
  have "attempts (trace ?sl) = attempts (trace s)"
    using acquire_frame(7)[of env ?u s] acq
    by (simp add: run_try_attempts no_attempt_login)
  with cov(1) attempts_news[OF p13] have xs: "attempts (news s ?s') = xs" by simp
  have ts: "new_timers s ?s' = ts"
    using cov(2) os(2) by (simp add: new_timers_append)
  have c6: "\<forall>r \<in> set ua. positive_bid (objs s r) \<and> timeToBid (objs s r) \<noteq> None \<longrightarrow>
             r \<in> set (attempts (news s ?s'))
             \<or> r \<in> set (map (\<lambda>t. callback_auction (snd t)) (new_timers s ?s'))"
    using cov(3) unfolding xs ts os by simp
  show ?thesis
    using c4 c5 c6 by (simp add: el hb)
qed

theorem login_failure_proceeds_witness:
  "fst (handleUserBids (oracle_fail_at 2) cred_u [0] one_object_state) = None
   \<and> Error (LoginError ''u'')
       \<in> set (news one_object_state
                (snd (handleUserBids (oracle_fail_at 2) cred_u [0] one_object_state)))
   \<and> browserMap (snd (handleUserBids (oracle_fail_at 2) cred_u [0] one_object_state)) ''u''
       = Some \<lparr>browser = 0, page = 1, isLoggedIn = False\<rparr>
   \<and> map (\<lambda>t. callback_auction (snd t))
       (new_timers one_object_state
          (snd (handleUserBids (oracle_fail_at 2) cred_u [0] one_object_state))) = [0]"
proof -
  let ?sa = "snd (acquire (oracle_fail_at 2) ''u'' one_object_state)"
  have 1: "filter (\<lambda>r. positive_bid (objs one_object_state r)) [0] \<noteq> []"
    by (simp add: one_object_state_def init_def auction_far_def positive_bid_def)
  have 2: "acquire (oracle_fail_at 2) (username cred_u) one_object_state = (None, ?sa)"
    by (simp add: cred_u_def oracle_fail_at_def one_object_state_def init_def acquire_def
        launch_session_def perform_def Let_def)
  have 3: "browserMap ?sa (username cred_u) = Some \<lparr>browser = 0, page = 1, isLoggedIn = False\<rparr>"
    by (simp add: cred_u_def oracle_fail_at_def one_object_state_def init_def acquire_def
        launch_session_def perform_def Let_def)
  have 4: "\<not> isLoggedIn \<lparr>browser = 0, page = 1, isLoggedIn = False\<rparr>" by simp
  have 5: "(0::nat) < 6" by simp
  have 6: "\<not> fst (oracle_fail_at 2 (tick ?sa + 0))"
    by (simp add: oracle_fail_at_def one_object_state_def init_def acquire_def
        launch_session_def perform_def Let_def)
  have u: "username cred_u = ''u''" by (simp add: cred_u_def)
  have t: "map (\<lambda>t. callback_auction (snd t))
       (new_timers one_object_state
          (snd (handleUserBids (oracle_fail_at 2) cred_u [0] one_object_state))) = [0]"
    by (simp add: one_object_state_def oracle_fail_at_def cred_u_def auction_far_def eval_defs)
  from login_failure_proceeds[OF 1 2 3 4 5 6] t show ?thesis
    unfolding u by simp
qed

section \<open>The handlers\<close>

lemma clearTimeout_fold:
  "timers (fold (\<lambda>t. clearTimeout (timeoutId t)) ps s)
     = filter (\<lambda>t. fst t \<notin> timeoutId ` set ps) (timers s)
   \<and> browserMap (fold (\<lambda>t. clearTimeout (timeoutId t)) ps s) = browserMap s
   \<and> bidTimeouts (fold (\<lambda>t. clearTimeout (timeoutId t)) ps s) = bidTimeouts s
   \<and> nextTimeout (fold (\<lambda>t. clearTimeout (timeoutId t)) ps s) = nextTimeout s
   \<and> nextHandle (fold (\<lambda>t. clearTimeout (timeoutId t)) ps s) = nextHandle s
   \<and> objs (fold (\<lambda>t. clearTimeout (timeoutId t)) ps s) = objs s
   \<and> nextRef (fold (\<lambda>t. clearTimeout (timeoutId t)) ps s) = nextRef s
   \<and> store (fold (\<lambda>t. clearTimeout (timeoutId t)) ps s) = store s
   \<and> clock (fold (\<lambda>t. clearTimeout (timeoutId t)) ps s) = clock s
   \<and> tick (fold (\<lambda>t. clearTimeout (timeoutId t)) ps s) = tick s
   \<and> trace (fold (\<lambda>t. clearTimeout (timeoutId t)) ps s) = trace s"
proof (induction ps arbitrary: s)
  case (Cons p ps)
  have "filter (\<lambda>t. fst t \<notin> timeoutId ` set ps) (filter (\<lambda>t. fst t \<noteq> timeoutId p) (timers s))
      = filter (\<lambda>t. fst t \<notin> timeoutId ` set (p # ps)) (timers s)"
    by (induction "timers s") auto
  with Cons[of "clearTimeout (timeoutId p) s"] show ?case
    by (simp add: clearTimeout_def)
qed simp

lemma clear_bidTimeouts_simps [simp]:
  "timers (clear_bidTimeouts s)
     = filter (\<lambda>t. fst t \<notin> timeoutId ` set (bidTimeouts s)) (timers s)"
  "bidTimeouts (clear_bidTimeouts s) = []"
  "browserMap (clear_bidTimeouts s) = browserMap s"
  "nextTimeout (clear_bidTimeouts s) = nextTimeout s"
  "nextHandle (clear_bidTimeouts s) = nextHandle s"
  "objs (clear_bidTimeouts s) = objs s"
  "nextRef (clear_bidTimeouts s) = nextRef s"
  "store (clear_bidTimeouts s) = store s"
  "clock (clear_bidTimeouts s) = clock s"
  "tick (clear_bidTimeouts s) = tick s"
  "trace (clear_bidTimeouts s) = trace s"
  using clearTimeout_fold[of "bidTimeouts s" s] by (simp_all add: clear_bidTimeouts_def)

lemma alloc_frame [simp]:
  "browserMap (snd (alloc as s)) = browserMap s"
  "bidTimeouts (snd (alloc as s)) = bidTimeouts s"
  "timers (snd (alloc as s)) = timers s"
  "nextTimeout (snd (alloc as s)) = nextTimeout s"
  "nextHandle (snd (alloc as s)) = nextHandle s"
  "store (snd (alloc as s)) = store s"
  "clock (snd (alloc as s)) = clock s"
  "tick (snd (alloc as s)) = tick s"
  "trace (snd (alloc as s)) = trace s"
  by (induction as arbitrary: s; simp add: Let_def)+


lemma alloc_old: "r < nextRef s \<Longrightarrow> objs (snd (alloc as s)) r = objs s r"
  by (induction as arbitrary: s) (simp_all add: Let_def)

lemma alloc_objs: "map (objs (snd (alloc as s))) (fst (alloc as s)) = as"
proof (induction as arbitrary: s)
  case (Cons a as)
  let ?s1 = "s\<lparr>objs := (objs s)(nextRef s := a), nextRef := Suc (nextRef s)\<rparr>"
  have "objs (snd (alloc as ?s1)) (nextRef s) = objs ?s1 (nextRef s)"
    by (rule alloc_old) simp
  with Cons[of ?s1] show ?case by (simp add: Let_def)
qed simp


text \<open>The dictionary \<^verbatim>\<open>auctionsByAccount\<close>: under each account its auctions, in order.\<close>

lemma group_by_account_Nil: "group_by_account h rs m [] = m []"
  by (induction rs arbitrary: m) simp_all

lemma group_by_account_general:
  "u \<noteq> [] \<Longrightarrow> group_by_account h rs m u =
     (if filter (\<lambda>r. account (h r) = u) rs = [] then m u
      else Some ((case m u of None \<Rightarrow> [] | Some l \<Rightarrow> l) @ filter (\<lambda>r. account (h r) = u) rs))"
proof (induction rs arbitrary: m)
  case (Cons r rs)
  then show ?case
    by (cases "account (h r) = []"; cases "account (h r) = u")
       (auto split: option.splits)
qed simp

lemma group_by_account_empty:
  "group_by_account h rs Map.empty u =
     (if u = [] \<or> filter (\<lambda>r. account (h r) = u) rs = [] then None
      else Some (filter (\<lambda>r. account (h r) = u) rs))"
  by (cases "u = []") (simp_all add: group_by_account_general group_by_account_Nil)

section \<open>The tasks of a pass\<close>

lemma run_tasks_frame [simp]:
  "nextRef (snd (run_tasks env creds m s)) = nextRef s"
  "unstamped (objs (snd (run_tasks env creds m s)) q) = unstamped (objs s q)"
  by (induction creds arbitrary: s; simp add: Let_def split: option.splits)+

lemma run_tasks_trace: "prefix (trace s) (trace (snd (run_tasks env creds m s)))"
proof (induction creds arbitrary: s)
  case (Cons c creds)
  show ?case
  proof (cases "m (username c)")
    case None
    with Cons show ?thesis by simp
  next
    case (Some ua)
    show ?thesis
    proof (cases "ua = []")
      case True
      with Some Cons show ?thesis by simp
    next
      case False
      have "prefix (trace s) (trace (snd (handleUserBids env c ua s)))"
        by (rule handleUserBids_trace)
      also have "prefix (trace (snd (handleUserBids env c ua s)))
          (trace (snd (run_tasks env creds m (snd (handleUserBids env c ua s)))))"
        by (rule Cons)
      finally show ?thesis using Some False by (simp add: Let_def)
    qed
  qed
qed simp



section \<open>A scheduling pass\<close>

lemma fetch_auctions_data_cases:
  obtains
    (idle) "fst (fst (loadData env (clear_bidTimeouts (emit (Info ClearingOldTimers) s)))) = []
          \<or> snd (fst (loadData env (clear_bidTimeouts (emit (Info ClearingOldTimers) s)))) = []"
      "fetch_auctions_data env s =
         (Inr (snd (fst (loadData env (clear_bidTimeouts (emit (Info ClearingOldTimers) s))))),
          emit (Info NoCredsOrAuctions)
            (snd (loadData env (clear_bidTimeouts (emit (Info ClearingOldTimers) s)))))"
  | (pass) creds aucs sl al m t where
      "sl = snd (loadData env (clear_bidTimeouts (emit (Info ClearingOldTimers) s)))"
      "(creds, aucs) = fst (loadData env (clear_bidTimeouts (emit (Info ClearingOldTimers) s)))"
      "creds \<noteq> []" "aucs \<noteq> []"
      "al = alloc aucs sl"
      "m = group_by_account (objs (snd al)) (fst al) Map.empty"
      "t = run_tasks env creds m (snd al)"
      "fetch_auctions_data env s =
         (case fst t of Some e \<Rightarrow> Inl e | None \<Rightarrow> Inr (map (objs (snd t)) (fst al)), snd t)"
proof -
  let ?ld = "loadData env (clear_bidTimeouts (emit (Info ClearingOldTimers) s))"
  show ?thesis
  proof (cases "fst (fst ?ld) = [] \<or> snd (fst ?ld) = []")
    case True
    then have "fetch_auctions_data env s =
         (Inr (snd (fst ?ld)), emit (Info NoCredsOrAuctions) (snd ?ld))"
      by (simp add: fetch_auctions_data_def Let_def del: loadData_effect)
    with True idle show ?thesis by blast
  next
    case False
    let ?al = "alloc (snd (fst ?ld)) (snd ?ld)"
    let ?t = "run_tasks env (fst (fst ?ld))
                (group_by_account (objs (snd ?al)) (fst ?al) Map.empty) (snd ?al)"
    have "fetch_auctions_data env s =
         (case fst ?t of Some e \<Rightarrow> Inl e | None \<Rightarrow> Inr (map (objs (snd ?t)) (fst ?al)), snd ?t)"
      using False
      by (simp add: fetch_auctions_data_def Let_def split: option.splits del: loadData_effect)
    with False pass[of "snd ?ld" "fst (fst ?ld)" "snd (fst ?ld)" ?al _ ?t] show ?thesis
      by simp
  qed
qed

lemma loaded_auctions:
  "snd (fst (loadData env (clear_bidTimeouts (emit (Info ClearingOldTimers) s))))
     = (if fst (env (tick s)) then snd (store s) else [])"
  "fst (fst (loadData env (clear_bidTimeouts (emit (Info ClearingOldTimers) s))))
     = (if fst (env (tick s)) then fst (store s) else [])"
  by simp_all

lemma fetch_auctions_data_trace:
  "prefix (trace s) (trace (snd (fetch_auctions_data env s)))"
proof -
  let ?sc = "clear_bidTimeouts (emit (Info ClearingOldTimers) s)"
  have a: "prefix (trace s) (trace ?sc)" by (simp add: prefix_def)
  have b: "prefix (trace ?sc) (trace (snd (loadData env ?sc)))" by (rule loadData_trace)
  from a b have ab: "prefix (trace s) (trace (snd (loadData env ?sc)))"
    by (rule prefix_order.trans)
  show ?thesis
  proof (cases rule: fetch_auctions_data_cases[of env s])
    case idle
    from ab have "prefix (trace s) (trace (emit (Info NoCredsOrAuctions) (snd (loadData env ?sc))))"
      by (auto simp: prefix_def)
    with idle show ?thesis by simp
  next
    case (pass creds aucs sl al m t)
    have "prefix (trace (snd al)) (trace (snd t))"
      unfolding pass(7) by (rule run_tasks_trace)
    moreover have "trace (snd al) = trace sl" unfolding pass(5) by simp
    ultimately have "prefix (trace s) (trace (snd t))"
      using ab pass(1) by (auto intro: prefix_order.trans)
    then show ?thesis by (simp add: pass(8))
  qed
qed





section \<open>Live timers and pending entries\<close>









lemma run_simps [simp]:
  "run env [] s = s"
  "run env (x # xs) s = run env xs (exec env x s)"
  "run env (xs @ ys) s = run env ys (run env xs s)"
  by (simp_all add: run_def)






section \<open>One timer for each auction\<close>


lemma subseq_subset: "subseq xs ys \<Longrightarrow> set xs \<subseteq> set ys"
  by (auto simp: subseq_conv_nths dest: in_set_nthsD)











section \<open>Login attempts\<close>

lemma logins_append [simp]: "logins (xs @ ys) = logins xs @ logins ys"
  by (simp add: logins_def)

lemma logins_Cons: "logins (e # tr) = login_of e @ logins tr"
  by (simp add: logins_def)

lemma logins_Nil [simp]: "logins [] = []"
  by (simp add: logins_def)

lemma logins_news:
  "prefix (trace s) (trace s') \<Longrightarrow> logins (trace s') = logins (trace s) @ logins (news s s')"
  by (auto simp: prefix_def news_def)

lemma run_try_logins:
  "\<exists>xs. logins (trace (snd (run_try env ss s))) = logins (trace s) @ xs
      \<and> (\<forall>v \<in> set xs. Say (LoggingIn v) \<in> set ss)"
proof (induction env ss s rule: run_try.induct)
  case (2 env a rest s)
  then show ?case by (auto simp: logins_Cons)
next
  case (3 env m rest s)
  then obtain xs where xs:
    "logins (trace (snd (run_try env rest (emit (Info m) s)))) = logins (trace (emit (Info m) s)) @ xs"
    "\<forall>v \<in> set xs. Say (LoggingIn v) \<in> set rest" by blast
  show ?case
  proof (cases m)
    case (LoggingIn v)
    with xs show ?thesis by (intro exI[of _ "v # xs"]) (simp add: logins_Cons)
  qed (use xs in \<open>auto simp: logins_Cons\<close>)
qed simp_all

lemma run_try_no_logins:
  "(\<And>v. Say (LoggingIn v) \<notin> set ss) \<Longrightarrow>
   logins (trace (snd (run_try env ss s))) = logins (trace s)"
  using run_try_logins[of env ss s] by (cases "\<exists>v. Say (LoggingIn v) \<in> set ss") auto

lemma no_login_bid: "Say (LoggingIn v) \<notin> set (bid_steps a pg)"
  by (simp add: bid_steps_def)

lemma quiet_logins [simp]:
  "logins (trace (snd (loadData env s))) = logins (trace s)"
  "logins (trace (snd (saveData env d s))) = logins (trace s)"
  "logins (trace (snd (launch_session env u s))) = logins (trace s)"
  "logins (trace (schedule_bid u r pg dl s)) = logins (trace s)"
  by (simp_all add: loadData_def saveData_def launch_session_def Let_def logins_Cons)

lemma mark_bidPlaced_logins [simp]:
  "logins (trace (mark_bidPlaced env r s)) = logins (trace s)"
  by (simp add: mark_bidPlaced_def Let_def split: option.splits)

lemma placeBid_logins [simp]: "logins (trace (placeBid env r pg s)) = logins (trace s)"
  by (simp add: placeBid_def Let_def run_try_no_logins no_login_bid logins_Cons)

lemma bid_iteration_logins [simp]:
  "logins (trace (bid_iteration env u pg r s)) = logins (trace s)"
  by (simp add: bid_iteration_def Let_def logins_Cons split: option.splits)

lemma bid_loop_logins [simp]: "logins (trace (bid_loop env u pg rs s)) = logins (trace s)"
  by (induction rs arbitrary: s) simp_all

lemma acquire_logins [simp]: "logins (trace (snd (acquire env u s))) = logins (trace s)"
  by (simp add: acquire_def)

lemma ensureLoggedIn_logins:
  "\<exists>xs. logins (trace (snd (ensureLoggedIn env u p pg s))) = logins (trace s) @ xs
      \<and> set xs \<subseteq> {u}"
proof -
  from run_try_logins[of env "login_steps u p pg" s] obtain xs where
    "logins (trace (snd (run_try env (login_steps u p pg) s))) = logins (trace s) @ xs"
    "\<forall>v \<in> set xs. Say (LoggingIn v) \<in> set (login_steps u p pg)" by blast
  moreover from this(2) have "set xs \<subseteq> {u}" by (auto simp: login_steps_def)
  ultimately show ?thesis
    by (auto simp: ensureLoggedIn_def Let_def logins_Cons split: option.splits)
qed

lemma handleUserBids_logins:
  "\<exists>xs. logins (trace (snd (handleUserBids env cred ua s))) = logins (trace s) @ xs
      \<and> set xs \<subseteq> {username cred}"
proof (cases rule: handleUserBids_cases[of s ua env cred])
  case skip
  then show ?thesis by (simp add: logins_Cons)
next
  case (reject e)
  then show ?thesis by simp
next
  case (loop sess)
  from ensureLoggedIn_logins[of env "username cred" "password cred" "page sess"
      "snd (acquire env (username cred) s)"]
  show ?thesis using loop by simp
qed

text \<open>
  An account whose auctions are all ineligible is left alone by the tasks of a pass: no
  session, no login, no pending entry.
\<close>

lemma run_tasks_quiet:
  assumes "\<And>rs. m u = Some rs \<Longrightarrow> \<forall>r \<in> set rs. \<not> positive_bid (objs s r)"
  shows "browserMap (snd (run_tasks env creds m s)) u = browserMap s u
     \<and> (\<exists>xs. logins (trace (snd (run_tasks env creds m s))) = logins (trace s) @ xs
            \<and> u \<notin> set xs)
     \<and> (\<exists>es. bidTimeouts (snd (run_tasks env creds m s)) = bidTimeouts s @ es
            \<and> u \<notin> pending_username ` set es)"
  using assms
proof (induction creds arbitrary: s)
  case Nil
  show ?case by simp
next
  case (Cons c creds)
  show ?case
  proof (cases "m (username c) = None \<or> m (username c) = Some []")
    case True
    with Cons.IH[OF Cons.prems] show ?thesis by auto
  next
    case False
    then obtain ua where ua: "m (username c) = Some ua" "ua \<noteq> []" by auto
    let ?s1 = "snd (handleUserBids env c ua s)"
    let ?s2 = "snd (run_tasks env creds m ?s1)"
    have r: "snd (run_tasks env (c # creds) m s) = ?s2"
      using ua by (simp add: Let_def)
    have pos: "positive_bid (objs ?s1 q) = positive_bid (objs s q)" for q
      by (rule unstamped_positive_bid) simp
    have step: "browserMap ?s1 u = browserMap s u
        \<and> (\<exists>xs. logins (trace ?s1) = logins (trace s) @ xs \<and> u \<notin> set xs)
        \<and> (\<exists>es. bidTimeouts ?s1 = bidTimeouts s @ es \<and> u \<notin> pending_username ` set es)"
    proof (cases "username c = u")
      case True
      with ua Cons.prems have "\<forall>r \<in> set ua. \<not> positive_bid (objs s r)" by simp
      then have "filter (\<lambda>r. positive_bid (objs s r)) ua = []"
        by (simp add: filter_empty_conv)
      from handleUserBids_skip[OF this, of env c] show ?thesis
        by (simp add: logins_Cons)
    next
      case False
      from handleUserBids_logins[of env c ua s] obtain xs where
        xs: "logins (trace ?s1) = logins (trace s) @ xs" "set xs \<subseteq> {username c}" by blast
      from handleUserBids_timers[of env c ua s] obtain ts where
        ts: "bidTimeouts ?s1 = bidTimeouts s @ map (entry_of s (username c)) ts" by blast
      have "u \<notin> pending_username ` set (map (entry_of s (username c)) ts)"
        using False by (auto simp: entry_of_def)
      moreover have "u \<notin> set xs" using xs(2) False by auto
      moreover have "browserMap ?s1 u = browserMap s u"
        using False by (simp add: handleUserBids_other)
      ultimately show ?thesis using xs(1) ts by blast
    qed
    have "\<And>rs. m u = Some rs \<Longrightarrow> \<forall>r \<in> set rs. \<not> positive_bid (objs ?s1 r)"
      using Cons.prems pos by simp
    from Cons.IH[OF this] have rest: "browserMap ?s2 u = browserMap ?s1 u
        \<and> (\<exists>xs. logins (trace ?s2) = logins (trace ?s1) @ xs \<and> u \<notin> set xs)
        \<and> (\<exists>es. bidTimeouts ?s2 = bidTimeouts ?s1 @ es \<and> u \<notin> pending_username ` set es)" .
    from step obtain xs1 es1 where 1:
      "browserMap ?s1 u = browserMap s u"
      "logins (trace ?s1) = logins (trace s) @ xs1" "u \<notin> set xs1"
      "bidTimeouts ?s1 = bidTimeouts s @ es1" "u \<notin> pending_username ` set es1"
      by blast
    from rest obtain xs2 es2 where 2:
      "browserMap ?s2 u = browserMap ?s1 u"
      "logins (trace ?s2) = logins (trace ?s1) @ xs2" "u \<notin> set xs2"
      "bidTimeouts ?s2 = bidTimeouts ?s1 @ es2" "u \<notin> pending_username ` set es2"
      by blast
    have "browserMap ?s2 u = browserMap s u" using 1(1) 2(1) by simp
    moreover have "logins (trace ?s2) = logins (trace s) @ (xs1 @ xs2) \<and> u \<notin> set (xs1 @ xs2)"
      using 1(2,3) 2(2,3) by simp
    moreover have "bidTimeouts ?s2 = bidTimeouts s @ (es1 @ es2)
        \<and> u \<notin> pending_username ` set (es1 @ es2)"
      using 1(4,5) 2(4,5) by auto
    ultimately show ?thesis unfolding r by blast
  qed
qed

lemma alloc_member:
  "r \<in> set (fst (alloc as s)) \<Longrightarrow> objs (snd (alloc as s)) r \<in> set as"
proof -
  assume "r \<in> set (fst (alloc as s))"
  then have "objs (snd (alloc as s)) r \<in> set (map (objs (snd (alloc as s))) (fst (alloc as s)))"
    by simp
  then show ?thesis by (simp only: alloc_objs)
qed

lemma fetch_auctions_data_quiet:
  assumes "\<forall>a \<in> set (snd (store s)). account a = u \<longrightarrow> \<not> positive_bid a"
  shows "browserMap (snd (fetch_auctions_data env s)) u = browserMap s u
     \<and> u \<notin> set (logins (news s (snd (fetch_auctions_data env s))))
     \<and> u \<notin> pending_username ` set (bidTimeouts (snd (fetch_auctions_data env s)))"
proof -
  let ?sc = "clear_bidTimeouts (emit (Info ClearingOldTimers) s)"
  let ?s' = "snd (fetch_auctions_data env s)"
  have ln: "logins (trace ?s') = logins (trace s) @ logins (news s ?s')"
    by (rule logins_news[OF fetch_auctions_data_trace])
  have l0: "logins (trace (snd (loadData env ?sc))) = logins (trace s)"
    by (simp add: logins_Cons)
  show ?thesis
  proof (cases rule: fetch_auctions_data_cases[of env s])
    case idle
    have "logins (trace ?s') = logins (trace s)"
      using l0 by (simp add: idle(2) logins_Cons)
    with ln have "logins (news s ?s') = []" by simp
    then show ?thesis by (simp add: idle(2))
  next
    case (pass creds aucs sl al m t)
    have "aucs = snd (fst (loadData env ?sc))" using pass(2) by (metis snd_conv)
    then have "aucs = (if fst (env (tick s)) then snd (store s) else [])"
      by (simp only: loaded_auctions)
    then have sub: "set aucs \<subseteq> set (snd (store s))" by (simp split: if_splits)
    have q: "\<forall>r \<in> set rs. \<not> positive_bid (objs (snd al) r)" if "m u = Some rs" for rs
    proof
      fix r assume "r \<in> set rs"
      with that have r: "r \<in> set (fst al)" "account (objs (snd al) r) = u"
        unfolding pass(6) by (auto simp: group_by_account_empty split: if_splits)
      from r(1) have "objs (snd al) r \<in> set aucs"
        unfolding pass(5) by (rule alloc_member)
      with sub r(2) assms show "\<not> positive_bid (objs (snd al) r)" by blast
    qed
    have b: "browserMap (snd al) = browserMap s" "bidTimeouts (snd al) = []"
      "logins (trace (snd al)) = logins (trace s)"
      unfolding pass(5) pass(1) using l0 by simp_all
    from run_tasks_quiet[of m u "snd al" env creds, OF q] obtain xs es where
      "browserMap (snd t) u = browserMap (snd al) u"
      "logins (trace (snd t)) = logins (trace (snd al)) @ xs" "u \<notin> set xs"
      "bidTimeouts (snd t) = bidTimeouts (snd al) @ es" "u \<notin> pending_username ` set es"
      unfolding pass(7) by blast
    with b have "browserMap ?s' u = browserMap s u"
      "logins (trace ?s') = logins (trace s) @ xs" "u \<notin> set xs"
      "u \<notin> pending_username ` set (bidTimeouts ?s')"
      by (simp_all add: pass(8))
    with ln show ?thesis by simp
  qed
qed

text \<open>
  C2: the task of an account does what it would do without the ineligible auctions. When
  all the auctions of the account are ineligible it returns after one log line: it launches
  nothing, logs in nowhere, arms nothing. Every timer that a task arms and every
  bid that it attempts is for an auction with a positive bid. Over a whole pass, an account
  all of whose auctions in the store are ineligible keeps its entry of \<^verbatim>\<open>browserMap\<close> as it
  was, has no login started, and has no entry in \<^verbatim>\<open>bidTimeouts\<close>.
\<close>

theorem ineligible_never_scheduled:
  "handleUserBids env cred ua s
     = handleUserBids env cred (filter (\<lambda>r. positive_bid (objs s r)) ua) s
   \<and> ((\<forall>r \<in> set ua. \<not> positive_bid (objs s r)) \<longrightarrow>
       handleUserBids env cred ua s = (None, emit (Info (SkippingUser (username cred))) s))
   \<and> (\<forall>t \<in> set (new_timers s (snd (handleUserBids env cred ua s))).
         positive_bid (objs s (callback_auction (snd t))))
   \<and> (\<forall>r \<in> set (attempts (news s (snd (handleUserBids env cred ua s)))).
         positive_bid (objs s r))
   \<and> ((\<forall>a \<in> set (snd (store s)). account a = u \<longrightarrow> \<not> positive_bid a) \<longrightarrow>
         browserMap (snd (fetch_auctions_data env s)) u = browserMap s u
         \<and> u \<notin> set (logins (news s (snd (fetch_auctions_data env s))))
         \<and> u \<notin> pending_username ` set (bidTimeouts (snd (fetch_auctions_data env s))))"
proof -
  let ?atb = "filter (\<lambda>r. positive_bid (objs s r)) ua"
  let ?s' = "snd (handleUserBids env cred ua s)"
  have 0: "handleUserBids env cred ua s = handleUserBids env cred ?atb s"
    by (simp add: handleUserBids_def)
  have 1: "(\<forall>r \<in> set ua. \<not> positive_bid (objs s r)) \<longrightarrow>
       handleUserBids env cred ua s = (None, emit (Info (SkippingUser (username cred))) s)"
    using handleUserBids_skip[of s ua env cred] by (simp add: filter_empty_conv)
  from handleUserBids_timers[of env cred ua s] obtain ts where ts:
    "timers ?s' = timers s @ ts" "subseq (map (\<lambda>t. callback_auction (snd t)) ts) ?atb"
    by blast
  have nt: "new_timers s ?s' = ts" using ts(1) by (rule new_timers_append)
  have 2: "\<forall>t \<in> set (new_timers s ?s'). positive_bid (objs s (callback_auction (snd t)))"
    using subseq_subset[OF ts(2)] unfolding nt by auto
  have 3: "\<forall>r \<in> set (attempts (news s ?s')). positive_bid (objs s r)"
    using subseq_subset[OF handleUserBids_attempts[of s env cred ua]] by auto
  have 4: "(\<forall>a \<in> set (snd (store s)). account a = u \<longrightarrow> \<not> positive_bid a) \<longrightarrow>
         browserMap (snd (fetch_auctions_data env s)) u = browserMap s u
         \<and> u \<notin> set (logins (news s (snd (fetch_auctions_data env s))))
         \<and> u \<notin> pending_username ` set (bidTimeouts (snd (fetch_auctions_data env s)))"
    using fetch_auctions_data_quiet[of s u env] by blast
  from 0 1 2 3 4 show ?thesis by blast
qed

theorem ineligible_never_scheduled_witness:
  "handleUserBids oracle_ok cred_v [0] zero_object_state
     = (None, emit (Info (SkippingUser ''v'')) zero_object_state)
   \<and> browserMap (snd (fetch_auctions_data oracle_ok
        (init ([cred_u, cred_v], [auction_far, auction_zero])))) ''v'' = None
   \<and> ''v'' \<notin> set (logins (news (init ([cred_u, cred_v], [auction_far, auction_zero]))
        (snd (fetch_auctions_data oracle_ok
           (init ([cred_u, cred_v], [auction_far, auction_zero]))))))
   \<and> logins (news (init ([cred_u, cred_v], [auction_far, auction_zero]))
        (snd (fetch_auctions_data oracle_ok
           (init ([cred_u, cred_v], [auction_far, auction_zero]))))) = [''u'']"
proof -
  let ?s0 = "init ([cred_u, cred_v], [auction_far, auction_zero])"
  have a: "\<forall>r \<in> set [0]. \<not> positive_bid (objs zero_object_state r)"
    by (simp add: zero_object_state_def auction_zero_def positive_bid_def)
  have b: "\<forall>a \<in> set (snd (store ?s0)). account a = ''v'' \<longrightarrow> \<not> positive_bid a"
    by (simp add: init_def auction_far_def auction_zero_def positive_bid_def)
  have u: "username cred_v = ''v''" by (simp add: cred_v_def)
  have m: "browserMap ?s0 ''v'' = None" by (simp add: init_def)
  have l: "logins (news ?s0 (snd (fetch_auctions_data oracle_ok ?s0))) = [''u'']"
    by (simp add: oracle_ok_def cred_u_def cred_v_def auction_far_def auction_zero_def
        eval_defs logins_Cons)
  from ineligible_never_scheduled[where ua = "[0]" and s = zero_object_state
      and env = oracle_ok and cred = cred_v and u = "''v''"] a
  have 1: "handleUserBids oracle_ok cred_v [0] zero_object_state
     = (None, emit (Info (SkippingUser ''v'')) zero_object_state)"
    unfolding u by blast
  from ineligible_never_scheduled[where ua = "[]" and s = ?s0
      and env = oracle_ok and cred = cred_v and u = "''v''"] b
  have 2: "browserMap (snd (fetch_auctions_data oracle_ok ?s0)) ''v'' = browserMap ?s0 ''v''
         \<and> ''v'' \<notin> set (logins (news ?s0 (snd (fetch_auctions_data oracle_ok ?s0))))"
    by blast
  from 1 2 m l show ?thesis by simp
qed

end
